theory Spec2Isabelle
  imports Complex_Main "HOL-Library.Word"
begin

section \<open>Byte buffers\<close>

text \<open>
  A Node.js \<open>Buffer\<close> is a sequence of octets. Only the operations the camera server uses
  are modelled: \<open>length\<close>, \<open>Buffer.concat\<close> (list append), \<open>indexOf\<close>, \<open>slice\<close> and
  \<open>readUInt32BE\<close>.
\<close>

type_synonym byte = "8 word"
type_synonym frame = "byte list"

datatype error = ERR_OUT_OF_RANGE | ERR_WRITE

text \<open>
  \<open>buf.indexOf(value, byteOffset)\<close> for a non-empty \<open>value\<close>: the index of the first
  occurrence of \<open>value\<close> that starts at or after \<open>byteOffset\<close>, or \<open>-1\<close>.  The server
  only searches for the two-byte markers.
\<close>

fun indexOf_scan :: "byte list \<Rightarrow> byte list \<Rightarrow> nat \<Rightarrow> int" where
  "indexOf_scan [] v i = -1"
| "indexOf_scan (b # bs) v i =
     (if take (length v) (b # bs) = v then int i else indexOf_scan bs v (Suc i))"

definition indexOf :: "byte list \<Rightarrow> byte list \<Rightarrow> nat \<Rightarrow> int" where
  "indexOf buf v byteOffset = indexOf_scan (drop byteOffset buf) v byteOffset"

text \<open>
  \<open>buf.slice(start, end)\<close>: a negative index counts from the end of the buffer, and
  both indices are clamped to \<open>0 .. length\<close>; the result is empty when \<open>end \<le> start\<close>.
  \<open>buf.slice(start)\<close> takes \<open>end = buf.length\<close>.
\<close>

definition clamp_index :: "nat \<Rightarrow> int \<Rightarrow> nat" where
  "clamp_index len i = (if i < 0 then nat (max 0 (int len + i)) else min (nat i) len)"

definition slice :: "byte list \<Rightarrow> int \<Rightarrow> int \<Rightarrow> byte list" where
  "slice buf s e =
     (let s' = clamp_index (length buf) s; e' = clamp_index (length buf) e
      in take (e' - s') (drop s' buf))"

definition slice_from :: "byte list \<Rightarrow> int \<Rightarrow> byte list" where
  "slice_from buf s = slice buf s (int (length buf))"

text \<open>
  \<open>buf.readUInt32BE(offset)\<close>: the four bytes at \<open>offset\<close>, most significant first;
  Node raises \<open>ERR_OUT_OF_RANGE\<close> when they are not all inside the buffer.
\<close>

definition readUInt32BE :: "byte list \<Rightarrow> nat \<Rightarrow> error + nat" where
  "readUInt32BE buf off =
     (if off + 4 \<le> length buf
      then Inr (unat (buf ! off) * 2 ^ 24 + unat (buf ! (off + 1)) * 2 ^ 16
                + unat (buf ! (off + 2)) * 2 ^ 8 + unat (buf ! (off + 3)))
      else Inl ERR_OUT_OF_RANGE)"

section \<open>Module state and the latest-frame cache\<close>

text \<open>
  The module-level variables of the server.  A socket or an HTTP response object is
  identified by a number; a JavaScript \<open>Set\<close> is a duplicate-free list in insertion order.
\<close>

type_synonym res = nat

record globals =
  latestFrame :: "frame option"
  framesReceived :: nat
  bytesLastFrame :: nat
  tcpClients :: "nat list"
  mjpegClients :: "res list"

definition initial_globals :: globals where
  "initial_globals =
     \<lparr>latestFrame = None, framesReceived = 0, bytesLastFrame = 0,
      tcpClients = [], mjpegClients = []\<rparr>"

text \<open>
  \<open>handleFrame(frame)\<close>: \<open>!frame\<close> holds for \<open>null\<close> only (every Buffer object, also an
  empty one, is truthy).
\<close>

definition handleFrame :: "frame option \<Rightarrow> globals \<Rightarrow> globals" where
  "handleFrame frame g =
     (case frame of
        None \<Rightarrow> g
      | Some f \<Rightarrow>
          if length f < 128 then g
          else g\<lparr>latestFrame := Some f,
                 framesReceived := framesReceived g + 1,
                 bytesLastFrame := length f\<rparr>)"

section \<open>Frame extraction on a camera connection\<close>

text \<open>The per-connection variables of the \<open>connection\<close> handler.\<close>

record conn =
  buffer :: "byte list"
  pendingLen :: "nat option"

definition initial_conn :: conn where
  "initial_conn = \<lparr>buffer = [], pendingLen = None\<rparr>"

definition SOI :: "byte list" where "SOI = [0xFF, 0xD8]"
definition EOI :: "byte list" where "EOI = [0xFF, 0xD9]"

text \<open>
  One pass through the body of a \<open>for (;;)\<close> loop either leaves the loop (\<open>Break\<close>),
  reaches the call of \<open>handleFrame\<close> with the extracted frame and goes round again
  (\<open>Continue\<close>), or raises.
\<close>

datatype step = Break conn | Continue conn frame | Raised error

text \<open>The \<open>len-prefix\<close> loop body, from the test of \<open>buffer.length < pendingLen\<close> on.\<close>

definition len_body :: "byte list \<Rightarrow> nat \<Rightarrow> step" where
  "len_body buf n =
     (if length buf < n then Break \<lparr>buffer = buf, pendingLen = Some n\<rparr>
      else Continue \<lparr>buffer = slice_from buf (int n), pendingLen = None\<rparr>
                    (slice buf 0 (int n)))"

definition len_iter :: "conn \<Rightarrow> step" where
  "len_iter st =
     (case pendingLen st of
        None \<Rightarrow>
          if length (buffer st) < 4 then Break st
          else (case readUInt32BE (buffer st) 0 of
                  Inl e \<Rightarrow> Raised e
                | Inr n \<Rightarrow> len_body (slice_from (buffer st) 4) n)
      | Some n \<Rightarrow> len_body (buffer st) n)"

text \<open>The \<open>jpeg-markers\<close> loop body.\<close>

definition marker_iter :: "conn \<Rightarrow> step" where
  "marker_iter st =
     (let start = indexOf (buffer st) SOI 0 in
      if start = -1 then
        Break (if length (buffer st) > 5 * 1024 * 1024
               then st\<lparr>buffer := slice_from (buffer st) (- 1024 * 1024)\<rparr>
               else st)
      else
        let end = indexOf (buffer st) EOI (nat (start + 2)) in
        if end = -1 then Break st
        else Continue (st\<lparr>buffer := slice_from (buffer st) (end + 2)\<rparr>)
                      (slice (buffer st) start (end + 2)))"


text \<open>
  The two \<open>for (;;)\<close> loops of the \<open>data\<close> handler.  Each returns the connection
  variables and the module state as the loop leaves them, and the frames it passed to
  \<open>handleFrame\<close>, in order.
\<close>

function loop_len :: "conn \<Rightarrow> globals \<Rightarrow> error + (conn \<times> globals \<times> frame list)" where
  "loop_len st g =
     (case len_iter st of
        Break st' \<Rightarrow> Inr (st', g, [])
      | Raised e \<Rightarrow> Inl e
      | Continue st' frame \<Rightarrow>
          (case loop_len st' (handleFrame (Some frame) g) of
             Inl e \<Rightarrow> Inl e
           | Inr (st'', g', fs) \<Rightarrow> Inr (st'', g', frame # fs)))"
  by pat_completeness auto
termination
proof (relation "measure (\<lambda>(st, g). 2 * length (buffer st)
                                    + (case pendingLen st of None \<Rightarrow> 0 | Some n \<Rightarrow> 1))")
  show "wf (measure (\<lambda>(st, g). 2 * length (buffer st)
                                + (case pendingLen st of None \<Rightarrow> 0 | Some n \<Rightarrow> 1)))"
    by simp
next
  fix st :: conn and g :: globals and st' :: conn and fr :: frame
  assume c: "len_iter st = Continue st' fr"
  have body: "length (buffer s') \<le> length buf \<and> pendingLen s' = None"
    if "len_body buf n = Continue s' f" for buf n s' f
    using that
    by (auto simp: len_body_def slice_from_def slice_def clamp_index_def Let_def
             split: if_splits)
  show "((st', handleFrame (Some fr) g), (st, g))
          \<in> measure (\<lambda>(st, g). 2 * length (buffer st)
                                  + (case pendingLen st of None \<Rightarrow> 0 | Some n \<Rightarrow> 1))"
  proof (cases "pendingLen st")
    case None
    with c have ge: "4 \<le> length (buffer st)"
      by (auto simp: len_iter_def split: if_splits)
    from c None ge obtain n where "len_body (slice_from (buffer st) 4) n = Continue st' fr"
      by (auto simp: len_iter_def split: if_splits sum.splits)
    from body [OF this] ge have "length (buffer st') < length (buffer st)" "pendingLen st' = None"
      by (auto simp: slice_from_def slice_def clamp_index_def Let_def)
    with None show ?thesis by simp
  next
    case (Some n)
    with c have "len_body (buffer st) n = Continue st' fr"
      by (simp add: len_iter_def)
    from body [OF this] Some show ?thesis by simp
  qed
qed

declare loop_len.simps [simp del]

function loop_markers :: "conn \<Rightarrow> globals \<Rightarrow> error + (conn \<times> globals \<times> frame list)" where
  "loop_markers st g =
     (case marker_iter st of
        Break st' \<Rightarrow> Inr (st', g, [])
      | Raised e \<Rightarrow> Inl e
      | Continue st' frame \<Rightarrow>
          (case loop_markers st' (handleFrame (Some frame) g) of
             Inl e \<Rightarrow> Inl e
           | Inr (st'', g', fs) \<Rightarrow> Inr (st'', g', frame # fs)))"
  by pat_completeness auto
termination
proof (relation "measure (\<lambda>(st, g). length (buffer st))")
  show "wf (measure (\<lambda>(st, g). length (buffer st)))"
    by simp
next
  fix st :: conn and g :: globals and st' :: conn and fr :: frame
  assume c: "marker_iter st = Continue st' fr"
  have lower: "- 1 \<le> indexOf_scan bs v i" for bs v i
    by (induction bs v i rule: indexOf_scan.induct) auto
  define start where "start = indexOf (buffer st) SOI 0"
  define e where "e = indexOf (buffer st) EOI (nat (start + 2))"
  from c have s: "start \<noteq> - 1" and e: "e \<noteq> - 1"
    and st': "st' = st\<lparr>buffer := slice_from (buffer st) (e + 2)\<rparr>"
    by (auto simp: marker_iter_def Let_def start_def e_def split: if_splits)
  from s have ne: "buffer st \<noteq> []"
    by (auto simp: start_def indexOf_def)
  from e lower [of "drop (nat (start + 2)) (buffer st)" EOI "nat (start + 2)"]
  have "0 \<le> e"
    by (simp add: e_def indexOf_def)
  with ne have "length (slice_from (buffer st) (e + 2)) < length (buffer st)"
    by (auto simp: slice_from_def slice_def clamp_index_def Let_def)
  then show "((st', handleFrame (Some fr) g), (st, g))
               \<in> measure (\<lambda>(st, g). length (buffer st))"
    by (simp add: st')
qed

declare loop_markers.simps [simp del]

text \<open>
  The \<open>data\<close> handler: append the chunk, then run the loop that \<open>FRAME_MODE\<close> selects
  (every value other than \<open>len-prefix\<close> selects the marker loop).
\<close>

definition on_data ::
  "string \<Rightarrow> conn \<Rightarrow> globals \<Rightarrow> byte list \<Rightarrow> error + (conn \<times> globals \<times> frame list)" where
  "on_data FRAME_MODE st g chunk =
     (let st1 = st\<lparr>buffer := buffer st @ chunk\<rparr> in
      if FRAME_MODE = ''len-prefix'' then loop_len st1 g else loop_markers st1 g)"

text \<open>
  A connection's life: the \<open>data\<close> events for a list of chunks, one after the other.
  An exception would end the process, so the run stops there.
\<close>

fun feed ::
  "string \<Rightarrow> conn \<Rightarrow> globals \<Rightarrow> byte list list \<Rightarrow> error + (conn \<times> globals \<times> frame list)" where
  "feed FRAME_MODE st g [] = Inr (st, g, [])"
| "feed FRAME_MODE st g (chunk # chunks) =
     (case on_data FRAME_MODE st g chunk of
        Inl e \<Rightarrow> Inl e
      | Inr (st', g', fs) \<Rightarrow>
          (case feed FRAME_MODE st' g' chunks of
             Inl e \<Rightarrow> Inl e
           | Inr (st'', g'', fs') \<Rightarrow> Inr (st'', g'', fs @ fs')))"


section \<open>Configuration and the \<open>/stats\<close> snapshot\<close>










record stats =
  stats_tcpClients :: nat
  stats_mjpegClients :: nat
  stats_framesReceived :: nat
  stats_bytesLastFrame :: nat
  stats_frameMode :: string
  stats_emitFps :: real

definition get_stats :: "string \<Rightarrow> real \<Rightarrow> globals \<Rightarrow> stats" where
  "get_stats FRAME_MODE fps g =
     \<lparr>stats_tcpClients = length (tcpClients g),
      stats_mjpegClients = length (mjpegClients g),
      stats_framesReceived = framesReceived g,
      stats_bytesLastFrame = bytesLastFrame g,
      stats_frameMode = FRAME_MODE,
      stats_emitFps = fps\<rparr>"

section \<open>Broadcast to the MJPEG clients\<close>

text \<open>\<open>Set.prototype.add\<close> and \<open>delete\<close> on a set kept as a duplicate-free list.\<close>

definition Set_add :: "'a \<Rightarrow> 'a list \<Rightarrow> 'a list" where
  "Set_add x xs = (if x \<in> set xs then xs else xs @ [x])"

definition Set_delete :: "'a \<Rightarrow> 'a list \<Rightarrow> 'a list" where
  "Set_delete x xs = removeAll x xs"

text \<open>
  An HTTP response as the broadcast sees it: what has been written to it, whether it has
  been ended, and how the connection behaves: with \<open>writes_left = Some n\<close> the next \<open>n\<close>
  calls of \<open>write\<close> succeed and every later one throws; with \<open>None\<close> no call throws.
\<close>

datatype chunk = Str string | Bin frame

record sink =
  written :: "chunk list"
  ended :: bool
  writes_left :: "nat option"

definition res_write :: "chunk \<Rightarrow> sink \<Rightarrow> error + sink" where
  "res_write data s =
     (case writes_left s of
        None \<Rightarrow> Inr (s\<lparr>written := written s @ [data]\<rparr>)
      | Some 0 \<Rightarrow> Inl ERR_WRITE
      | Some (Suc n) \<Rightarrow> Inr (s\<lparr>written := written s @ [data], writes_left := Some n\<rparr>))"

definition res_end :: "sink \<Rightarrow> error + sink" where
  "res_end s = Inr (s\<lparr>ended := True\<rparr>)"

text \<open>\<open>try { res.end(); } catch {}\<close>\<close>

definition try_end :: "sink \<Rightarrow> sink" where
  "try_end s = (case res_end s of Inl e \<Rightarrow> s | Inr s' \<Rightarrow> s')"

text \<open>A run of \<open>res.write\<close> statements: the first one that throws ends the run.\<close>

fun write_all :: "chunk list \<Rightarrow> sink \<Rightarrow> sink \<times> error option" where
  "write_all [] s = (s, None)"
| "write_all (c # cs) s =
     (case res_write c s of
        Inl e \<Rightarrow> (s, Some e)
      | Inr s' \<Rightarrow> write_all cs s')"

definition CRLF :: string where
  "CRLF = [CHR 0x0D, CHR 0x0A]"

text \<open>The decimal numeral that a template literal prints for a length.\<close>

function decimal :: "nat \<Rightarrow> string" where
  "decimal n =
     (if n < 10 then [''0123456789'' ! n]
      else decimal (n div 10) @ [''0123456789'' ! (n mod 10)])"
  by pat_completeness auto
termination
  by (relation "measure (\<lambda>n. n)") auto

declare decimal.simps [simp del]

definition part_chunks :: "frame \<Rightarrow> chunk list" where
  "part_chunks frame =
     [Str (''--frame'' @ CRLF),
      Str (''Content-Type: image/jpeg'' @ CRLF),
      Str (''Content-Length: '' @ decimal (length frame) @ CRLF @ CRLF),
      Bin frame,
      Str CRLF]"

definition writeFrameTo :: "sink \<Rightarrow> frame \<Rightarrow> sink \<times> error option" where
  "writeFrameTo s frame = write_all (part_chunks frame) s"

text \<open>
  The body of the \<open>for (const res of Array.from(mjpegClients))\<close> loop of the broadcast
  timer, on the module state and the states of the response objects.
\<close>

definition tick_client ::
  "frame \<Rightarrow> globals \<times> (res \<Rightarrow> sink) \<Rightarrow> res \<Rightarrow> globals \<times> (res \<Rightarrow> sink)" where
  "tick_client frame w r =
     (case w of (g, sinks) \<Rightarrow>
        (case writeFrameTo (sinks r) frame of
           (s', None) \<Rightarrow> (g, sinks(r := s'))
         | (s', Some e) \<Rightarrow>
             (g\<lparr>mjpegClients := Set_delete r (mjpegClients g)\<rparr>, sinks(r := try_end s'))))"

definition tick :: "globals \<Rightarrow> (res \<Rightarrow> sink) \<Rightarrow> globals \<times> (res \<Rightarrow> sink)" where
  "tick g sinks =
     (case latestFrame g of
        None \<Rightarrow> (g, sinks)
      | Some frame \<Rightarrow>
          if length (mjpegClients g) = 0 then (g, sinks)
          else foldl (tick_client frame) (g, sinks) (mjpegClients g))"

text \<open>\<open>GET /stream.mjpg\<close>: register the response; its \<open>close\<close> handler.\<close>

definition subscribe :: "res \<Rightarrow> globals \<Rightarrow> globals" where
  "subscribe r g = g\<lparr>mjpegClients := Set_add r (mjpegClients g)\<rparr>"

definition on_close :: "res \<Rightarrow> globals \<times> (res \<Rightarrow> sink) \<Rightarrow> globals \<times> (res \<Rightarrow> sink)" where
  "on_close r w =
     (case w of (g, sinks) \<Rightarrow>
        (g\<lparr>mjpegClients := Set_delete r (mjpegClients g)\<rparr>, sinks(r := try_end (sinks r))))"

section \<open>Vocabulary for the properties\<close>

text \<open>
  \<open>occurs_at v buf i\<close>: the bytes \<open>v\<close> stand in \<open>buf\<close> at index \<open>i\<close>.
  \<open>first_at v buf off k\<close>: \<open>k\<close> is the first such index at or after \<open>off\<close>.
  \<open>absent_from v buf off\<close>: there is no such index at or after \<open>off\<close>.
\<close>

definition occurs_at :: "byte list \<Rightarrow> byte list \<Rightarrow> nat \<Rightarrow> bool" where
  "occurs_at v buf i = (take (length v) (drop i buf) = v)"

definition first_at :: "byte list \<Rightarrow> byte list \<Rightarrow> nat \<Rightarrow> nat \<Rightarrow> bool" where
  "first_at v buf off k =
     (off \<le> k \<and> occurs_at v buf k \<and> list_all (\<lambda>j. \<not> occurs_at v buf j) [off..<k])"

definition absent_from :: "byte list \<Rightarrow> byte list \<Rightarrow> nat \<Rightarrow> bool" where
  "absent_from v buf off = list_all (\<lambda>j. \<not> occurs_at v buf j) [off..<length buf]"

text \<open>\<open>handleFrame\<close> applied to a list of frames, first to last.\<close>

definition deliver :: "globals \<Rightarrow> frame list \<Rightarrow> globals" where
  "deliver g fs = foldl (\<lambda>g f. handleFrame (Some f) g) g fs"

text \<open>The connection with a further chunk appended to its buffer.\<close>

definition more_data :: "conn \<Rightarrow> byte list \<Rightarrow> conn" where
  "more_data st chunk = st\<lparr>buffer := buffer st @ chunk\<rparr>"

text \<open>
  What a loop does to the connection, and the frames it extracts, read off a run of the
  loop (neither depends on the module state the run starts in).
\<close>

definition extract_len :: "conn \<Rightarrow> conn \<times> frame list" where
  "extract_len st =
     (case loop_len st initial_globals of
        Inr (st', g, fs) \<Rightarrow> (st', fs)
      | Inl e \<Rightarrow> (st, []))"

definition extract_markers :: "conn \<Rightarrow> conn \<times> frame list" where
  "extract_markers st =
     (case loop_markers st initial_globals of
        Inr (st', g, fs) \<Rightarrow> (st', fs)
      | Inl e \<Rightarrow> (st, []))"


definition rest_markers :: "byte list \<Rightarrow> byte list" where
  "rest_markers b = buffer (fst (extract_markers \<lparr>buffer = b, pendingLen = None\<rparr>))"

definition frames_markers :: "byte list \<Rightarrow> frame list" where
  "frames_markers b = snd (extract_markers \<lparr>buffer = b, pendingLen = None\<rparr>)"

text \<open>
  The part of a buffer that can still become part of a frame: everything from the first
  start marker on, or, without a start marker, the last byte (it may be the \<open>0xFF\<close> of a
  start marker whose \<open>0xD8\<close> has not arrived).
\<close>

definition pending_part :: "byte list \<Rightarrow> byte list" where
  "pending_part b =
     (let s = indexOf b SOI 0 in
      if s = - 1 then (if b = [] then [] else [last b]) else drop (nat s) b)"


text \<open>The cache invariant: a cached frame is described by the two counters.\<close>

definition cache_inv :: "globals \<Rightarrow> bool" where
  "cache_inv g =
     (case latestFrame g of
        None \<Rightarrow> True
      | Some f \<Rightarrow> bytesLastFrame g = length f \<and> 1 \<le> framesReceived g)"

text \<open>What one pass of the broadcast leaves of a response object.\<close>

definition after_tick :: "frame \<Rightarrow> sink \<Rightarrow> sink" where
  "after_tick frame s =
     (case writeFrameTo s frame of (s', None) \<Rightarrow> s' | (s', Some e) \<Rightarrow> try_end s')"

definition write_ok :: "frame \<Rightarrow> sink \<Rightarrow> bool" where
  "write_ok frame s = (snd (writeFrameTo s frame) = None)"

section \<open>Facts about the buffer operations\<close>

lemma slice_from_nat: "slice_from buf (int k) = drop k buf"
  by (simp add: slice_from_def slice_def clamp_index_def Let_def min_def)

lemma slice_from_nonneg: "0 \<le> k \<Longrightarrow> slice_from buf k = drop (nat k) buf"
  by (simp add: slice_from_def slice_def clamp_index_def Let_def min_def)

lemma slice_from_neg:
  "0 < k \<Longrightarrow> slice_from buf (- int k) = drop (length buf - k) buf"
  by (auto simp: slice_from_def slice_def clamp_index_def Let_def max_def nat_diff_distrib)

lemma slice_nonneg:
  "0 \<le> s \<Longrightarrow> 0 \<le> e \<Longrightarrow> slice buf s e = take (nat e - nat s) (drop (nat s) buf)"
  by (auto simp: slice_def clamp_index_def Let_def min_def)

lemma slice_0_nat: "slice buf 0 (int n) = take n buf"
  by (simp add: slice_nonneg)

lemma be32_bound:
  "unat (a :: byte) * 2 ^ 24 + unat (b :: byte) * 2 ^ 16 + unat (c :: byte) * 2 ^ 8
     + unat (d :: byte) < 2 ^ 32"
proof -
  have b: "unat (x :: byte) \<le> 255" for x
    using unsigned_less [of x, where 'a = nat] by simp
  show ?thesis
    using b [of a] b [of b] b [of c] b [of d] by simp
qed

lemma readUInt32BE_ok: "4 \<le> length buf \<Longrightarrow> \<exists>n. readUInt32BE buf 0 = Inr n \<and> n < 2 ^ 32"
  using be32_bound by (simp add: readUInt32BE_def)

lemma readUInt32BE_append:
  "4 \<le> length buf \<Longrightarrow> readUInt32BE (buf @ c) 0 = readUInt32BE buf 0"
  by (auto simp: readUInt32BE_def nth_append)

section \<open>The length-prefix loop\<close>

lemma len_iter_not_Raised: "len_iter st \<noteq> Raised e"
  using readUInt32BE_ok [of "buffer st"]
  by (auto simp: len_iter_def len_body_def split: option.splits sum.splits)


lemma loop_len_shape:
  fixes g0 :: globals
  shows "\<exists>st' fs. \<forall>g. loop_len st g = Inr (st', deliver g fs, fs)"
proof (induction st g0 rule: loop_len.induct)
  case (1 st g0)
  show ?case
  proof (cases "len_iter st")
    case (Break st')
    then have "\<forall>g. loop_len st g = Inr (st', deliver g [], [])"
      by (simp add: deliver_def loop_len.simps [of st])
    then show ?thesis by blast
  next
    case (Continue st' f)
    from 1 [OF this] obtain st'' fs
      where "\<forall>g. loop_len st' g = Inr (st'', deliver g fs, fs)" by blast
    with Continue have "\<forall>g. loop_len st g = Inr (st'', deliver g (f # fs), f # fs)"
      by (simp add: deliver_def loop_len.simps [of st])
    then show ?thesis by blast
  next
    case (Raised e)
    then show ?thesis by (simp add: len_iter_not_Raised)
  qed
qed


lemma loop_len_extract:
  "loop_len st g = Inr (fst (extract_len st), deliver g (snd (extract_len st)), snd (extract_len st))"
proof -
  from loop_len_shape obtain st' fs
    where *: "\<forall>g. loop_len st g = Inr (st', deliver g fs, fs)" by blast
  then show ?thesis by (simp add: extract_len_def)
qed

lemma extract_len_Break: "len_iter st = Break st' \<Longrightarrow> extract_len st = (st', [])"
  by (simp add: extract_len_def loop_len.simps [of st])

lemma extract_len_Continue:
  "len_iter st = Continue st' f \<Longrightarrow>
   extract_len st = (fst (extract_len st'), f # snd (extract_len st'))"
proof -
  assume c: "len_iter st = Continue st' f"
  have "loop_len st initial_globals
          = Inr (fst (extract_len st'),
                 deliver (handleFrame (Some f) initial_globals) (snd (extract_len st')),
                 f # snd (extract_len st'))"
    by (subst loop_len.simps) (simp add: c loop_len_extract [of st'])
  then show ?thesis
    by (simp add: extract_len_def [of st])
qed

lemma extract_len_cong: "len_iter st = len_iter st2 \<Longrightarrow> extract_len st = extract_len st2"
  by (cases "len_iter st2")
     (simp_all add: extract_len_Break extract_len_Continue len_iter_not_Raised)

lemma extract_len_wait_header:
  "length buf < 4 \<Longrightarrow>
   extract_len \<lparr>buffer = buf, pendingLen = None\<rparr> = (\<lparr>buffer = buf, pendingLen = None\<rparr>, [])"
  by (rule extract_len_Break) (simp add: len_iter_def)

lemma extract_len_header:
  "4 \<le> length buf \<Longrightarrow> readUInt32BE buf 0 = Inr n \<Longrightarrow>
   extract_len \<lparr>buffer = buf, pendingLen = None\<rparr>
     = extract_len \<lparr>buffer = drop 4 buf, pendingLen = Some n\<rparr>"
  by (rule extract_len_cong) (simp add: len_iter_def slice_from_nonneg)

lemma extract_len_wait_body:
  "length buf < n \<Longrightarrow>
   extract_len \<lparr>buffer = buf, pendingLen = Some n\<rparr> = (\<lparr>buffer = buf, pendingLen = Some n\<rparr>, [])"
  by (rule extract_len_Break) (simp add: len_iter_def len_body_def)

lemma extract_len_frame:
  "n \<le> length buf \<Longrightarrow>
   extract_len \<lparr>buffer = buf, pendingLen = Some n\<rparr>
     = (fst (extract_len \<lparr>buffer = drop n buf, pendingLen = None\<rparr>),
        take n buf # snd (extract_len \<lparr>buffer = drop n buf, pendingLen = None\<rparr>))"
  by (rule extract_len_Continue)
     (simp add: len_iter_def len_body_def slice_from_nat slice_0_nat)

lemma extract_len_append:
  "extract_len \<lparr>buffer = b @ c, pendingLen = p\<rparr>
     = (fst (extract_len (more_data (fst (extract_len \<lparr>buffer = b, pendingLen = p\<rparr>)) c)),
        snd (extract_len \<lparr>buffer = b, pendingLen = p\<rparr>)
          @ snd (extract_len (more_data (fst (extract_len \<lparr>buffer = b, pendingLen = p\<rparr>)) c)))"
proof (induction "2 * length b + (case p of None \<Rightarrow> 0 | Some n \<Rightarrow> Suc 0)"
         arbitrary: b p rule: less_induct)
  case less
  show ?case
  proof (cases p)
    case None
    show ?thesis
    proof (cases "length b < 4")
      case True
      with None show ?thesis by (simp add: extract_len_wait_header more_data_def)
    next
      case False
      then have ge: "4 \<le> length b" by simp
      then obtain n where n: "readUInt32BE b 0 = Inr n"
        using readUInt32BE_ok by blast
      have "extract_len \<lparr>buffer = b @ c, pendingLen = None\<rparr>
              = extract_len \<lparr>buffer = drop 4 b @ c, pendingLen = Some n\<rparr>"
        using ge n extract_len_header [of "b @ c" n] by (simp add: readUInt32BE_append)
      moreover have "extract_len \<lparr>buffer = b, pendingLen = None\<rparr>
              = extract_len \<lparr>buffer = drop 4 b, pendingLen = Some n\<rparr>"
        using ge n by (rule extract_len_header)
      moreover have "2 * length (drop 4 b) + (case Some n of None \<Rightarrow> 0 | Some n \<Rightarrow> Suc 0)
                       < 2 * length b + (case p of None \<Rightarrow> 0 | Some n \<Rightarrow> Suc 0)"
        using ge None by simp
      ultimately show ?thesis
        using less [of "drop 4 b" "Some n"] None by simp
    qed
  next
    case (Some n)
    show ?thesis
    proof (cases "length b < n")
      case True
      with Some show ?thesis by (simp add: extract_len_wait_body more_data_def)
    next
      case False
      then have ge: "n \<le> length b" by simp
      have "2 * length (drop n b) + (case None :: nat option of None \<Rightarrow> 0 | Some n \<Rightarrow> Suc 0)
                       < 2 * length b + (case p of None \<Rightarrow> 0 | Some n \<Rightarrow> Suc 0)"
        using Some by simp
      from less [OF this] ge Some show ?thesis
        by (simp add: extract_len_frame)
    qed
  qed
qed

lemma len_iter_Break_idem: "len_iter s = Break s' \<Longrightarrow> len_iter s' = Break s'"
  by (auto simp: len_iter_def len_body_def split: option.splits if_splits sum.splits)

lemma extract_len_stops:
  fixes g0 :: globals
  shows "len_iter (fst (extract_len st)) = Break (fst (extract_len st))"
proof (induction st g0 rule: loop_len.induct)
  case (1 st g0)
  show ?case
  proof (cases "len_iter st")
    case (Break s')
    then show ?thesis using len_iter_Break_idem [OF Break] by (simp add: extract_len_Break)
  next
    case (Continue s' f)
    from 1 [OF this] show ?thesis by (simp add: extract_len_Continue [OF Continue])
  next
    case (Raised e)
    then show ?thesis by (simp add: len_iter_not_Raised)
  qed
qed

lemma extract_len_quiescent:
  "extract_len (fst (extract_len st)) = (fst (extract_len st), [])"
  using extract_len_stops by (rule extract_len_Break)


lemma more_data_conn: "more_data st c = \<lparr>buffer = buffer st @ c, pendingLen = pendingLen st\<rparr>"
  by (simp add: more_data_def)

lemma deliver_append: "deliver g (fs @ fs') = deliver (deliver g fs) fs'"
  by (simp add: deliver_def)

lemma on_data_len:
  "on_data ''len-prefix'' st g c
     = Inr (fst (extract_len (more_data st c)),
            deliver g (snd (extract_len (more_data st c))),
            snd (extract_len (more_data st c)))"
  by (simp add: on_data_def Let_def more_data_def loop_len_extract)

lemma feed_len:
  "len_iter st = Break st \<Longrightarrow>
   feed ''len-prefix'' st g cs
     = Inr (fst (extract_len (more_data st (concat cs))),
            deliver g (snd (extract_len (more_data st (concat cs)))),
            snd (extract_len (more_data st (concat cs))))"
proof (induction cs arbitrary: st g)
  case Nil
  then show ?case
    by (simp add: more_data_def extract_len_Break deliver_def)
next
  case (Cons c cs)
  define s1 where "s1 = fst (extract_len (more_data st c))"
  have q: "len_iter s1 = Break s1"
    unfolding s1_def by (rule extract_len_stops)
  have app: "extract_len (more_data st (c @ concat cs))
               = (fst (extract_len (more_data s1 (concat cs))),
                  snd (extract_len (more_data st c)) @ snd (extract_len (more_data s1 (concat cs))))"
    using extract_len_append [of "buffer st @ c" "concat cs" "pendingLen st"]
    by (simp add: more_data_conn s1_def)
  show ?case
    using Cons.IH [OF q] app
    by (simp add: on_data_len s1_def deliver_append)
qed

lemma initial_conn_waits: "len_iter initial_conn = Break initial_conn"
  by (simp add: len_iter_def initial_conn_def)

section \<open>Searching for the markers\<close>

lemma occurs_at_in_range: "v \<noteq> [] \<Longrightarrow> occurs_at v buf i \<Longrightarrow> i + length v \<le> length buf"
proof -
  assume "v \<noteq> []" and o: "occurs_at v buf i"
  from o have "length (take (length v) (drop i buf)) = length v"
    by (simp add: occurs_at_def)
  with \<open>v \<noteq> []\<close> show ?thesis by (cases "i < length buf") auto
qed

lemma first_at_iff:
  "first_at v buf off k \<longleftrightarrow>
     off \<le> k \<and> occurs_at v buf k \<and> (\<forall>j. off \<le> j \<and> j < k \<longrightarrow> \<not> occurs_at v buf j)"
  by (auto simp: first_at_def list_all_iff)

lemma absent_from_iff:
  "v \<noteq> [] \<Longrightarrow> absent_from v buf off \<longleftrightarrow> (\<forall>j\<ge>off. \<not> occurs_at v buf j)"
proof -
  assume v: "v \<noteq> []"
  have "j < length buf" if "occurs_at v buf j" for j
    using occurs_at_in_range [OF v that] v by (cases v) auto
  then show ?thesis
    by (auto simp: absent_from_def list_all_iff)
qed

lemma occurs_at_Cons_Suc [simp]: "occurs_at v (b # bs) (Suc j) = occurs_at v bs j"
  by (simp add: occurs_at_def)

lemma occurs_at_drop: "occurs_at v (drop n buf) j = occurs_at v buf (n + j)"
  by (simp add: occurs_at_def add.commute)

lemma indexOf_scan_lower: "- 1 \<le> indexOf_scan bs v i"
  by (induction bs v i rule: indexOf_scan.induct) auto

lemma indexOf_scan_cases:
  assumes "v \<noteq> []"
  shows "(indexOf_scan bs v i = - 1 \<and> (\<forall>j. \<not> occurs_at v bs j)) \<or>
         (\<exists>k. indexOf_scan bs v i = int (i + k) \<and> occurs_at v bs k
               \<and> (\<forall>j<k. \<not> occurs_at v bs j))"
proof (induction bs arbitrary: i)
  case Nil
  with assms show ?case by (auto simp: occurs_at_def)
next
  case (Cons b bs)
  show ?case
  proof (cases "take (length v) (b # bs) = v")
    case True
    then have "indexOf_scan (b # bs) v i = int (i + 0) \<and> occurs_at v (b # bs) 0"
      by (simp add: occurs_at_def)
    then show ?thesis by blast
  next
    case False
    then have z: "\<not> occurs_at v (b # bs) 0"
      by (simp add: occurs_at_def)
    from Cons [of "Suc i"] show ?thesis
    proof
      assume a: "indexOf_scan bs v (Suc i) = - 1 \<and> (\<forall>j. \<not> occurs_at v bs j)"
      have "\<not> occurs_at v (b # bs) j" for j
        using z a by (cases j) auto
      with a False show ?thesis by simp
    next
      assume "\<exists>k. indexOf_scan bs v (Suc i) = int (Suc i + k) \<and> occurs_at v bs k
                 \<and> (\<forall>j<k. \<not> occurs_at v bs j)"
      then obtain k where k: "indexOf_scan bs v (Suc i) = int (Suc i + k)"
        "occurs_at v bs k" "\<forall>j<k. \<not> occurs_at v bs j" by blast
      have "\<not> occurs_at v (b # bs) j" if "j < Suc k" for j
        using z k(3) that by (cases j) auto
      with k False have "indexOf_scan (b # bs) v i = int (i + Suc k) \<and> occurs_at v (b # bs) (Suc k)
                 \<and> (\<forall>j<Suc k. \<not> occurs_at v (b # bs) j)"
        by simp
      then show ?thesis by blast
    qed
  qed
qed

lemma indexOf_cases:
  assumes "v \<noteq> []"
  shows "(indexOf buf v off = - 1 \<and> absent_from v buf off) \<or>
         (\<exists>k. indexOf buf v off = int k \<and> first_at v buf off k)"
  using indexOf_scan_cases [OF assms, of "drop off buf" off]
proof
  assume "indexOf_scan (drop off buf) v off = - 1 \<and> (\<forall>j. \<not> occurs_at v (drop off buf) j)"
  then have "indexOf buf v off = - 1" and "\<forall>j. \<not> occurs_at v buf (off + j)"
    by (simp_all add: indexOf_def occurs_at_drop)
  moreover have "\<not> occurs_at v buf j" if "off \<le> j" for j
    using calculation(2) [rule_format, of "j - off"] that by simp
  ultimately show ?thesis by (simp add: absent_from_iff [OF assms])
next
  assume "\<exists>k. indexOf_scan (drop off buf) v off = int (off + k) \<and> occurs_at v (drop off buf) k
               \<and> (\<forall>j<k. \<not> occurs_at v (drop off buf) j)"
  then obtain k where k: "indexOf buf v off = int (off + k)" "occurs_at v buf (off + k)"
     "\<forall>j<k. \<not> occurs_at v buf (off + j)"
    by (auto simp: indexOf_def occurs_at_drop)
  have "\<not> occurs_at v buf j" if "off \<le> j" "j < off + k" for j
    using k(3) [rule_format, of "j - off"] that by simp
  with k have "first_at v buf off (off + k)"
    by (simp add: first_at_iff)
  with k(1) show ?thesis by blast
qed

lemma first_at_unique: "first_at v buf off k \<Longrightarrow> first_at v buf off k' \<Longrightarrow> k = k'"
  by (metis first_at_iff linorder_neqE_nat)

lemma first_at_not_absent: "v \<noteq> [] \<Longrightarrow> first_at v buf off k \<Longrightarrow> \<not> absent_from v buf off"
  by (auto simp: first_at_iff absent_from_iff)

lemma indexOf_first: "v \<noteq> [] \<Longrightarrow> first_at v buf off k \<Longrightarrow> indexOf buf v off = int k"
  using indexOf_cases [of v buf off] first_at_unique first_at_not_absent by blast

lemma indexOf_absent: "v \<noteq> [] \<Longrightarrow> absent_from v buf off \<Longrightarrow> indexOf buf v off = - 1"
  using indexOf_cases [of v buf off] first_at_not_absent by blast


lemma markers_nonempty [simp]: "SOI \<noteq> []" "EOI \<noteq> []" "length SOI = 2" "length EOI = 2"
  by (simp_all add: SOI_def EOI_def)

lemma first_at_in_range: "v \<noteq> [] \<Longrightarrow> first_at v buf off k \<Longrightarrow> k + length v \<le> length buf"
  by (simp add: first_at_iff occurs_at_in_range)

lemma marker_iter_absent:
  "absent_from SOI (buffer st) 0 \<Longrightarrow>
   marker_iter st =
     Break (if 5242880 < length (buffer st)
            then st\<lparr>buffer := drop (length (buffer st) - 1048576) (buffer st)\<rparr> else st)"
  using slice_from_neg [of 1048576 "buffer st"]
  by (simp add: marker_iter_def indexOf_absent)

lemma marker_iter_wait:
  "first_at SOI (buffer st) 0 s \<Longrightarrow> absent_from EOI (buffer st) (s + 2) \<Longrightarrow>
   marker_iter st = Break st"
  by (simp add: marker_iter_def indexOf_first indexOf_absent nat_add_distrib)

lemma marker_iter_frame:
  "first_at SOI (buffer st) 0 s \<Longrightarrow> first_at EOI (buffer st) (s + 2) e \<Longrightarrow>
   marker_iter st =
     Continue (st\<lparr>buffer := drop (e + 2) (buffer st)\<rparr>)
              (take (e + 2 - s) (drop s (buffer st)))"
  by (simp add: marker_iter_def indexOf_first nat_add_distrib slice_from_nonneg slice_nonneg)

lemma marker_cases:
  obtains (absent) "absent_from SOI b 0"
  | (wait) s where "first_at SOI b 0 s" "absent_from EOI b (s + 2)"
  | (frame) s e where "first_at SOI b 0 s" "first_at EOI b (s + 2) e"
  using indexOf_cases [of SOI b 0] indexOf_cases [of EOI b]
  by (metis markers_nonempty(1,2))

lemma marker_iter_not_Raised: "marker_iter st \<noteq> Raised e"
  by (simp add: marker_iter_def Let_def)

lemma loop_markers_shape:
  fixes g0 :: globals
  shows "\<exists>st' fs. \<forall>g. loop_markers st g = Inr (st', deliver g fs, fs)"
proof (induction st g0 rule: loop_markers.induct)
  case (1 st g0)
  show ?case
  proof (cases "marker_iter st")
    case (Break st')
    then have "\<forall>g. loop_markers st g = Inr (st', deliver g [], [])"
      by (simp add: deliver_def loop_markers.simps [of st])
    then show ?thesis by blast
  next
    case (Continue st' f)
    from 1 [OF this] obtain st'' fs
      where "\<forall>g. loop_markers st' g = Inr (st'', deliver g fs, fs)" by blast
    with Continue have "\<forall>g. loop_markers st g = Inr (st'', deliver g (f # fs), f # fs)"
      by (simp add: deliver_def loop_markers.simps [of st])
    then show ?thesis by blast
  next
    case (Raised e)
    then show ?thesis by (simp add: marker_iter_not_Raised)
  qed
qed

lemma loop_markers_extract:
  "loop_markers st g
     = Inr (fst (extract_markers st), deliver g (snd (extract_markers st)),
            snd (extract_markers st))"
proof -
  from loop_markers_shape obtain st' fs
    where *: "\<forall>g. loop_markers st g = Inr (st', deliver g fs, fs)" by blast
  then show ?thesis by (simp add: extract_markers_def)
qed

lemma extract_markers_Break: "marker_iter st = Break st' \<Longrightarrow> extract_markers st = (st', [])"
  by (simp add: extract_markers_def loop_markers.simps [of st])

lemma extract_markers_Continue:
  "marker_iter st = Continue st' f \<Longrightarrow>
   extract_markers st = (fst (extract_markers st'), f # snd (extract_markers st'))"
proof -
  assume c: "marker_iter st = Continue st' f"
  have "loop_markers st initial_globals
          = Inr (fst (extract_markers st'),
                 deliver (handleFrame (Some f) initial_globals) (snd (extract_markers st')),
                 f # snd (extract_markers st'))"
    by (subst loop_markers.simps) (simp add: c loop_markers_extract [of st'])
  then show ?thesis
    by (simp add: extract_markers_def [of st])
qed

lemma extract_markers_pendingLen:
  fixes g0 :: globals
  shows "pendingLen (fst (extract_markers st)) = pendingLen st"
proof (induction st g0 rule: loop_markers.induct)
  case (1 st g0)
  show ?case
  proof (cases "marker_iter st")
    case (Break st')
    then have "pendingLen st' = pendingLen st"
      by (auto simp: marker_iter_def Let_def split: if_splits)
    with Break show ?thesis by (simp add: extract_markers_Break)
  next
    case (Continue st' f)
    then have "pendingLen st' = pendingLen st"
      by (auto simp: marker_iter_def Let_def split: if_splits)
    with 1 [OF Continue] show ?thesis by (simp add: extract_markers_Continue [OF Continue])
  next
    case (Raised e)
    then show ?thesis by (simp add: marker_iter_not_Raised)
  qed
qed

lemma extract_markers_None:
  "extract_markers \<lparr>buffer = b, pendingLen = None\<rparr>
     = (\<lparr>buffer = rest_markers b, pendingLen = None\<rparr>, frames_markers b)"
proof -
  have "fst (extract_markers \<lparr>buffer = b, pendingLen = None\<rparr>)
          = \<lparr>buffer = rest_markers b, pendingLen = None\<rparr>"
    using extract_markers_pendingLen [of "\<lparr>buffer = b, pendingLen = None\<rparr>"]
    by (simp add: rest_markers_def)
  then show ?thesis
    by (simp add: frames_markers_def prod_eq_iff)
qed

lemma markers_absent:
  assumes "absent_from SOI b 0"
  shows "rest_markers b = (if 5242880 < length b then drop (length b - 1048576) b else b)"
    and "frames_markers b = []"
  using extract_markers_Break [OF marker_iter_absent, of "\<lparr>buffer = b, pendingLen = None\<rparr>"] assms
  by (simp_all add: rest_markers_def frames_markers_def)

lemma markers_wait:
  assumes "first_at SOI b 0 s" "absent_from EOI b (s + 2)"
  shows "rest_markers b = b" and "frames_markers b = []"
  using extract_markers_Break [OF marker_iter_wait, of "\<lparr>buffer = b, pendingLen = None\<rparr>" s] assms
  by (simp_all add: rest_markers_def frames_markers_def)

lemma markers_frame:
  assumes "first_at SOI b 0 s" "first_at EOI b (s + 2) e"
  shows "rest_markers b = rest_markers (drop (e + 2) b)"
    and "frames_markers b = take (e + 2 - s) (drop s b) # frames_markers (drop (e + 2) b)"
  using extract_markers_Continue [OF marker_iter_frame, of "\<lparr>buffer = b, pendingLen = None\<rparr>" s e]
    assms
  by (simp_all add: rest_markers_def frames_markers_def)


lemma occurs_at_append_right: "occurs_at v (p @ z) (length p + j) = occurs_at v z j"
  by (simp add: occurs_at_def)

lemma occurs_at_append_left:
  "j + length v \<le> length x \<Longrightarrow> occurs_at v (x @ c) j = occurs_at v x j"
  by (simp add: occurs_at_def)

lemma first_at_append:
  assumes v: "v \<noteq> []" and f: "first_at v x off k"
  shows "first_at v (x @ c) off k"
proof -
  from first_at_in_range [OF v f] have r: "k + length v \<le> length x" .
  then have "occurs_at v (x @ c) j = occurs_at v x j" if "j \<le> k" for j
    using that by (simp add: occurs_at_append_left)
  with f show ?thesis by (simp add: first_at_iff)
qed

lemma first_at_shift:
  "first_at v z off k \<Longrightarrow> first_at v (p @ z) (length p + off) (length p + k)"
proof -
  assume f: "first_at v z off k"
  have "\<not> occurs_at v (p @ z) j" if "length p + off \<le> j" "j < length p + k" for j
  proof -
    from that have "j = length p + (j - length p)" "off \<le> j - length p" "j - length p < k"
      by auto
    with f show ?thesis
      by (metis first_at_iff occurs_at_append_right)
  qed
  with f show ?thesis
    by (simp add: first_at_iff occurs_at_append_right)
qed

lemma absent_from_shift:
  assumes v: "v \<noteq> []" and a: "absent_from v z off"
  shows "absent_from v (p @ z) (length p + off)"
proof -
  have "\<not> occurs_at v (p @ z) j" if "length p + off \<le> j" for j
  proof -
    from that have "j = length p + (j - length p)" "off \<le> j - length p"
      by auto
    with a v show ?thesis
      by (metis absent_from_iff occurs_at_append_right)
  qed
  then show ?thesis by (simp add: absent_from_iff [OF v])
qed

lemma pending_absent:
  "absent_from SOI b 0 \<Longrightarrow> pending_part b = (if b = [] then [] else [last b])"
  by (simp add: pending_part_def indexOf_absent)

lemma pending_first: "first_at SOI b 0 s \<Longrightarrow> pending_part b = drop s b"
  by (simp add: pending_part_def indexOf_first)

lemma absent_from_drop:
  assumes v: "v \<noteq> []" and a: "absent_from v b 0"
  shows "absent_from v (drop n b) 0"
  using a by (simp add: absent_from_iff [OF v] occurs_at_drop)

lemma first_at_skip:
  assumes f: "first_at v z 0 s" and g: "\<forall>j<length p. \<not> occurs_at v (p @ z) j"
  shows "first_at v (p @ z) 0 (length p + s)"
proof -
  from first_at_shift [OF f, of p]
  have sh: "occurs_at v (p @ z) (length p + s)"
    "\<And>j. length p \<le> j \<Longrightarrow> j < length p + s \<Longrightarrow> \<not> occurs_at v (p @ z) j"
    by (simp_all add: first_at_iff)
  have "\<not> occurs_at v (p @ z) j" if "j < length p + s" for j
    using g sh(2) [of j] that by (cases "j < length p") simp_all
  with sh(1) show ?thesis by (simp add: first_at_iff)
qed

lemma skip_garbage:
  assumes g: "\<forall>j<length p. \<not> occurs_at SOI (p @ z) j" and z: "z \<noteq> [] \<or> p = []"
  shows "frames_markers (p @ z) = frames_markers z \<and>
         pending_part (rest_markers (p @ z)) = pending_part (rest_markers z)"
proof (cases z rule: marker_cases)
  case absent
  have a: "absent_from SOI (p @ z) 0"
  proof -
    have "\<not> occurs_at SOI (p @ z) j" for j
    proof (cases "j < length p")
      case True
      with g show ?thesis by simp
    next
      case False
      then have "j = length p + (j - length p)" by simp
      with absent show ?thesis
        by (metis absent_from_iff markers_nonempty(1) occurs_at_append_right zero_le)
    qed
    then show ?thesis by (simp add: absent_from_iff)
  qed
  have trimmed: "absent_from SOI (drop n x) 0 \<and> drop n x \<noteq> [] \<and> last (drop n x) = last x"
    if "absent_from SOI x 0" "n < length x" for n x
    using that by (simp add: absent_from_drop)
  show ?thesis
  proof (cases "p = []")
    case True
    then show ?thesis by simp
  next
    case False
    with z have zne: "z \<noteq> []" by simp
    have l: "last (p @ z) = last z" using zne by simp
    have 1: "pending_part (rest_markers (p @ z)) = [last z]"
      using trimmed [OF a, of "length (p @ z) - 1048576"] a zne l
      by (auto simp: markers_absent(1) [OF a] pending_absent simp del: last_append)
    have 2: "pending_part (rest_markers z) = [last z]"
      using trimmed [OF absent, of "length z - 1048576"] absent zne
      by (auto simp: markers_absent(1) [OF absent] pending_absent)
    from 1 2 show ?thesis
      by (simp add: markers_absent(2) [OF a] markers_absent(2) [OF absent])
  qed
next
  case (wait s)
  have f: "first_at SOI (p @ z) 0 (length p + s)"
    using wait(1) g by (rule first_at_skip)
  have a: "absent_from EOI (p @ z) (length p + s + 2)"
    using absent_from_shift [OF _ wait(2), of p] by (simp add: add.assoc)
  show ?thesis
    by (simp add: markers_wait [OF f a] markers_wait [OF wait]
                  pending_first [OF f] pending_first [OF wait(1)])
next
  case (frame s e)
  have f: "first_at SOI (p @ z) 0 (length p + s)"
    using frame(1) g by (rule first_at_skip)
  have a: "first_at EOI (p @ z) (length p + s + 2) (length p + e)"
    using first_at_shift [OF frame(2), of p] by (simp add: add.assoc)
  have le: "s + 2 \<le> e" using frame(2) by (simp add: first_at_iff)
  show ?thesis
    using le
    by (simp add: markers_frame [OF f a] markers_frame [OF frame])
qed


lemma pending_split:
  "\<exists>p. x = p @ pending_part x \<and> (\<forall>j<length p. \<not> occurs_at SOI (x @ c) j)
       \<and> (pending_part x \<noteq> [] \<or> p = [])"
  using indexOf_cases [OF markers_nonempty(1), of x 0]
proof
  assume "indexOf x SOI 0 = - 1 \<and> absent_from SOI x 0"
  then have a: "absent_from SOI x 0" by simp
  show ?thesis
  proof (cases "x = []")
    case True
    with a show ?thesis by (simp add: pending_absent)
  next
    case False
    have "\<not> occurs_at SOI (x @ c) j" if "j < length (butlast x)" for j
    proof -
      from that have "j + length SOI \<le> length x" by simp
      then have "occurs_at SOI (x @ c) j = occurs_at SOI x j"
        by (rule occurs_at_append_left)
      with a show ?thesis by (simp add: absent_from_iff)
    qed
    with False a have "x = butlast x @ pending_part x \<and>
        (\<forall>j<length (butlast x). \<not> occurs_at SOI (x @ c) j) \<and> pending_part x \<noteq> []"
      by (simp add: pending_absent)
    then show ?thesis by blast
  qed
next
  assume "\<exists>k. indexOf x SOI 0 = int k \<and> first_at SOI x 0 k"
  then obtain s where f: "first_at SOI x 0 s" by blast
  from first_at_in_range [OF markers_nonempty(1) f] have r: "s + 2 \<le> length x" by simp
  have "\<not> occurs_at SOI (x @ c) j" if "j < length (take s x)" for j
  proof -
    from that r have "j + length SOI \<le> length x" "j < s" by simp_all
    then have "occurs_at SOI (x @ c) j = occurs_at SOI x j" "\<not> occurs_at SOI x j"
      using f by (simp_all add: occurs_at_append_left first_at_iff)
    then show ?thesis by simp
  qed
  with r have "x = take s x @ pending_part x \<and>
        (\<forall>j<length (take s x). \<not> occurs_at SOI (x @ c) j) \<and> pending_part x \<noteq> []"
    by (simp add: pending_first [OF f])
  then show ?thesis by blast
qed

lemma pending_enough:
  "frames_markers (x @ c) = frames_markers (pending_part x @ c) \<and>
   pending_part (rest_markers (x @ c)) = pending_part (rest_markers (pending_part x @ c))"
proof -
  from pending_split [of x c] obtain p where p: "x = p @ pending_part x"
    "\<forall>j<length p. \<not> occurs_at SOI (x @ c) j" "pending_part x \<noteq> [] \<or> p = []"
    by blast
  have e: "x @ c = p @ (pending_part x @ c)"
    using p(1) by (metis append.assoc)
  have "\<forall>j<length p. \<not> occurs_at SOI (p @ (pending_part x @ c)) j"
    using p(2) unfolding e .
  moreover have "pending_part x @ c \<noteq> [] \<or> p = []"
    using p(3) by auto
  ultimately have "frames_markers (p @ (pending_part x @ c)) = frames_markers (pending_part x @ c) \<and>
         pending_part (rest_markers (p @ (pending_part x @ c)))
           = pending_part (rest_markers (pending_part x @ c))"
    by (rule skip_garbage)
  then show ?thesis
    unfolding e .
qed

lemma pending_cong:
  assumes "pending_part x = pending_part y"
  shows "frames_markers (x @ c) = frames_markers (y @ c)"
    and "pending_part (rest_markers (x @ c)) = pending_part (rest_markers (y @ c))"
  using pending_enough [of x c] pending_enough [of y c] assms by simp_all

lemma pending_rest_absent:
  assumes "absent_from SOI b 0"
  shows "pending_part (rest_markers b) = pending_part b"
proof (cases "5242880 < length b")
  case True
  then have "absent_from SOI (drop (length b - 1048576) b) 0"
    "drop (length b - 1048576) b \<noteq> []" "b \<noteq> []"
    "last (drop (length b - 1048576) b) = last b"
    using assms by (auto simp: absent_from_drop)
  with True show ?thesis
    by (simp add: markers_absent(1) [OF assms] pending_absent assms)
next
  case False
  then show ?thesis by (simp add: markers_absent(1) [OF assms])
qed

lemma markers_append:
  "frames_markers (b @ c) = frames_markers b @ frames_markers (rest_markers b @ c) \<and>
   pending_part (rest_markers (b @ c)) = pending_part (rest_markers (rest_markers b @ c))"
proof (induction "length b" arbitrary: b rule: less_induct)
  case less
  show ?case
  proof (cases b rule: marker_cases)
    case absent
    from pending_cong [OF pending_rest_absent [OF absent], of c] show ?thesis
      by (simp add: markers_absent(2) [OF absent])
  next
    case (wait s)
    then show ?thesis by (simp add: markers_wait [OF wait])
  next
    case (frame s e)
    from first_at_in_range [OF markers_nonempty(2) frame(2)] have r: "e + 2 \<le> length b" by simp
    have le: "s + 2 \<le> e" using frame(2) by (simp add: first_at_iff)
    have f': "first_at SOI (b @ c) 0 s" "first_at EOI (b @ c) (s + 2) e"
      using frame by (simp_all add: first_at_append)
    from r le have "length (drop (e + 2) b) < length b" by simp
    from less [OF this] r le show ?thesis
      by (simp add: markers_frame [OF f'] markers_frame [OF frame])
  qed
qed


lemma on_data_markers:
  "FRAME_MODE \<noteq> ''len-prefix'' \<Longrightarrow>
   on_data FRAME_MODE \<lparr>buffer = b, pendingLen = None\<rparr> g c
     = Inr (\<lparr>buffer = rest_markers (b @ c), pendingLen = None\<rparr>,
            deliver g (frames_markers (b @ c)), frames_markers (b @ c))"
  by (simp add: on_data_def Let_def loop_markers_extract extract_markers_None)

lemma feed_markers_cong:
  assumes m: "FRAME_MODE \<noteq> ''len-prefix''"
  shows "pending_part x = pending_part y \<Longrightarrow>
         \<exists>bx by F.
           feed FRAME_MODE \<lparr>buffer = x, pendingLen = None\<rparr> g cs
             = Inr (\<lparr>buffer = bx, pendingLen = None\<rparr>, deliver g F, F) \<and>
           feed FRAME_MODE \<lparr>buffer = y, pendingLen = None\<rparr> g cs
             = Inr (\<lparr>buffer = by, pendingLen = None\<rparr>, deliver g F, F) \<and>
           pending_part bx = pending_part by"
proof (induction cs arbitrary: x y g)
  case Nil
  then show ?case by (simp add: deliver_def)
next
  case (Cons c cs)
  note pc = pending_cong [OF Cons.prems, of c]
  from Cons.IH [OF pc(2), of "deliver g (frames_markers (x @ c))"]
  obtain bx "by" F where
    "feed FRAME_MODE \<lparr>buffer = rest_markers (x @ c), pendingLen = None\<rparr>
        (deliver g (frames_markers (x @ c))) cs
       = Inr (\<lparr>buffer = bx, pendingLen = None\<rparr>, deliver (deliver g (frames_markers (x @ c))) F, F)"
    "feed FRAME_MODE \<lparr>buffer = rest_markers (y @ c), pendingLen = None\<rparr>
        (deliver g (frames_markers (x @ c))) cs
       = Inr (\<lparr>buffer = by, pendingLen = None\<rparr>, deliver (deliver g (frames_markers (x @ c))) F, F)"
    "pending_part bx = pending_part by"
    by blast
  then have
    "feed FRAME_MODE \<lparr>buffer = x, pendingLen = None\<rparr> g (c # cs)
       = Inr (\<lparr>buffer = bx, pendingLen = None\<rparr>,
              deliver g (frames_markers (x @ c) @ F), frames_markers (x @ c) @ F) \<and>
     feed FRAME_MODE \<lparr>buffer = y, pendingLen = None\<rparr> g (c # cs)
       = Inr (\<lparr>buffer = by, pendingLen = None\<rparr>,
              deliver g (frames_markers (x @ c) @ F), frames_markers (x @ c) @ F) \<and>
     pending_part bx = pending_part by"
    using pc(1) by (simp add: on_data_markers [OF m] deliver_append)
  then show ?case by blast
qed

lemma feed_markers_stream:
  assumes m: "FRAME_MODE \<noteq> ''len-prefix''"
  shows "\<exists>bx F.
           feed FRAME_MODE \<lparr>buffer = rest_markers s, pendingLen = None\<rparr> g cs
             = Inr (\<lparr>buffer = bx, pendingLen = None\<rparr>, deliver g F, F) \<and>
           frames_markers s @ F = frames_markers (s @ concat cs) \<and>
           pending_part bx = pending_part (rest_markers (s @ concat cs))"
proof (induction cs arbitrary: s g)
  case Nil
  show ?case by (simp add: deliver_def)
next
  case (Cons c cs)
  define F1 where "F1 = frames_markers (rest_markers s @ c)"
  from markers_append [of s c]
  have a: "frames_markers (s @ c) = frames_markers s @ F1"
    "pending_part (rest_markers (rest_markers s @ c)) = pending_part (rest_markers (s @ c))"
    by (simp_all add: F1_def)
  from Cons [of "s @ c" "deliver g F1"] obtain b2 F2 where
    2: "feed FRAME_MODE \<lparr>buffer = rest_markers (s @ c), pendingLen = None\<rparr> (deliver g F1) cs
          = Inr (\<lparr>buffer = b2, pendingLen = None\<rparr>, deliver (deliver g F1) F2, F2)"
       "frames_markers (s @ c) @ F2 = frames_markers ((s @ c) @ concat cs)"
       "pending_part b2 = pending_part (rest_markers ((s @ c) @ concat cs))"
    by blast
  from feed_markers_cong [OF m a(2), of "deliver g F1" cs] 2(1)
  obtain bx where
    3: "feed FRAME_MODE \<lparr>buffer = rest_markers (rest_markers s @ c), pendingLen = None\<rparr>
          (deliver g F1) cs
          = Inr (\<lparr>buffer = bx, pendingLen = None\<rparr>, deliver (deliver g F1) F2, F2)"
       "pending_part bx = pending_part b2"
    by auto
  have "feed FRAME_MODE \<lparr>buffer = rest_markers s, pendingLen = None\<rparr> g (c # cs)
             = Inr (\<lparr>buffer = bx, pendingLen = None\<rparr>, deliver g (F1 @ F2), F1 @ F2) \<and>
           frames_markers s @ (F1 @ F2) = frames_markers (s @ concat (c # cs)) \<and>
           pending_part bx = pending_part (rest_markers (s @ concat (c # cs)))"
    using 3 2(2,3) a(1)
    by (simp add: on_data_markers [OF m] deliver_append F1_def)
  then show ?case by blast
qed

lemma markers_empty: "rest_markers [] = []" "frames_markers [] = []"
proof -
  have "absent_from SOI [] 0" by (simp add: absent_from_def)
  from markers_absent [OF this] show "rest_markers [] = []" "frames_markers [] = []"
    by simp_all
qed

lemma feed_markers_initial:
  assumes m: "FRAME_MODE \<noteq> ''len-prefix''"
  shows "\<exists>bx. feed FRAME_MODE initial_conn g cs
             = Inr (\<lparr>buffer = bx, pendingLen = None\<rparr>,
                    deliver g (frames_markers (concat cs)), frames_markers (concat cs)) \<and>
           pending_part bx = pending_part (rest_markers (concat cs))"
  using feed_markers_stream [OF m, of "[]" g cs]
  by (auto simp: markers_empty initial_conn_def)

section \<open>Garbage before a frame\<close>

lemma occurs_at_first_byte:
  assumes "v \<noteq> []" "occurs_at v buf j"
  shows "j < length buf \<and> buf ! j = hd v"
proof -
  from occurs_at_in_range [OF assms] assms(1) have j: "j < length buf"
    by (cases v) auto
  from assms(2) have "hd (take (length v) (drop j buf)) = hd v"
    by (simp add: occurs_at_def)
  with j assms(1) show ?thesis
    by (cases v) (auto simp: hd_drop_conv_nth)
qed

lemma absent_without_first_byte:
  assumes "v \<noteq> []" "hd v \<notin> set g"
  shows "absent_from v g 0"
proof -
  have "\<not> occurs_at v g j" for j
    using occurs_at_first_byte [OF assms(1), of g j] assms(2) by (auto simp: in_set_conv_nth)
  then show ?thesis by (simp add: absent_from_iff [OF assms(1)])
qed

lemma first_at_after_garbage:
  assumes a: "absent_from [x, y] g 0" and ne: "x \<noteq> y"
  shows "first_at [x, y] (g @ [x, y] @ r) 0 (length g)"
proof -
  have "\<not> occurs_at [x, y] (g @ [x, y] @ r) j" if "j < length g" for j
  proof (cases "j + 2 \<le> length g")
    case True
    then have "occurs_at [x, y] (g @ [x, y] @ r) j = occurs_at [x, y] g j"
      using occurs_at_append_left [of j "[x, y]" g] by simp
    with a show ?thesis by (simp add: absent_from_iff)
  next
    case False
    with that have j: "Suc j = length g" by simp
    then have "drop j g = [last g]"
      by (metis append_butlast_last_id append_eq_conv_conj diff_Suc_1 length_0_conv
          length_butlast nat.simps(3))
    with j ne show ?thesis
      by (simp add: occurs_at_def)
  qed
  moreover have "occurs_at [x, y] (g @ [x, y] @ r) (length g)"
    using occurs_at_append_right [of "[x, y]" g "[x, y] @ r" 0] by (simp add: occurs_at_def)
  ultimately show ?thesis by (simp add: first_at_iff)
qed

lemma loop_markers_absent:
  "absent_from SOI b 0 \<Longrightarrow>
   loop_markers \<lparr>buffer = b, pendingLen = p\<rparr> g
     = Inr (\<lparr>buffer = (if 5242880 < length b then drop (length b - 1048576) b else b),
              pendingLen = p\<rparr>, g, [])"
  using extract_markers_Break [OF marker_iter_absent, of "\<lparr>buffer = b, pendingLen = p\<rparr>"]
  by (simp add: loop_markers_extract deliver_def)

lemma loop_markers_garbage_frame:
  assumes g: "absent_from SOI garbage 0" and b: "absent_from EOI body 0"
  shows "loop_markers \<lparr>buffer = garbage @ SOI @ body @ EOI, pendingLen = p\<rparr> g
           = Inr (\<lparr>buffer = [], pendingLen = p\<rparr>,
                  handleFrame (Some (SOI @ body @ EOI)) g, [SOI @ body @ EOI])"
proof -
  define buf where "buf = garbage @ SOI @ body @ EOI"
  have s: "first_at SOI buf 0 (length garbage)"
    using first_at_after_garbage [of "0xFF" "0xD8" garbage "body @ EOI"] g
    by (simp add: SOI_def buf_def)
  have "first_at EOI (body @ EOI) 0 (length body)"
    using first_at_after_garbage [of "0xFF" "0xD9" body "[]"] b
    by (simp add: EOI_def)
  from first_at_shift [OF this, of "garbage @ SOI"]
  have e: "first_at EOI buf (length garbage + 2) (length garbage + 2 + length body)"
    by (simp add: buf_def add.assoc)
  have "marker_iter \<lparr>buffer = buf, pendingLen = p\<rparr>
          = Continue \<lparr>buffer = [], pendingLen = p\<rparr> (SOI @ body @ EOI)"
    using marker_iter_frame [of "\<lparr>buffer = buf, pendingLen = p\<rparr>" "length garbage"
        "length garbage + 2 + length body"] s e
    by (simp add: buf_def)
  moreover have "absent_from SOI [] 0" by (simp add: absent_from_def)
  ultimately show ?thesis
    unfolding buf_def [symmetric]
    by (simp add: loop_markers_extract extract_markers_Continue
                  extract_markers_Break [OF marker_iter_absent] deliver_def)
qed

lemma zeros_absent: "absent_from SOI (replicate n 0) 0" "absent_from EOI (replicate n 0) 0"
  by (rule absent_without_first_byte; simp add: SOI_def EOI_def)+

section \<open>Chunking invariance\<close>

text \<open>
  Claim C1.  In marker mode (every \<open>FRAME_MODE\<close> other than \<open>len-prefix\<close>), a byte stream
  delivered to a fresh connection in chunks yields the same frames, in the same order,
  however the stream is cut into chunks, and so leaves the same module state.  The frames
  are those of the stream arriving as one chunk.  The loop that is modelled trims a buffer
  of more than 5 MB without start marker to its last 1 MB, so two chunkings may leave
  different buffers; the buffers agree in the part that can still become a frame.
\<close>

theorem marker_chunking_invariant:
  assumes "FRAME_MODE \<noteq> ''len-prefix''" and "concat chunks = concat chunks'"
  shows "\<exists>st st' g' frames.
           feed FRAME_MODE initial_conn g chunks = Inr (st, g', frames) \<and>
           feed FRAME_MODE initial_conn g chunks' = Inr (st', g', frames) \<and>
           pending_part (buffer st) = pending_part (buffer st') \<and>
           frames = frames_markers (concat chunks)"
  using feed_markers_initial [OF assms(1), of g chunks]
    feed_markers_initial [OF assms(1), of g chunks'] assms(2)
  by auto

theorem marker_chunking_invariant_witness:
  "''jpeg-markers'' \<noteq> ''len-prefix'' \<and>
   concat [[1, 0xFF], [0xD8, 2, 0xFF, 0xD9, 3 :: byte]] = concat [[1, 0xFF, 0xD8, 2, 0xFF], [0xD9, 3]] \<and>
   (\<exists>st st' g' frames.
      feed ''jpeg-markers'' initial_conn initial_globals [[1, 0xFF], [0xD8, 2, 0xFF, 0xD9, 3]]
        = Inr (st, g', frames) \<and>
      feed ''jpeg-markers'' initial_conn initial_globals [[1, 0xFF, 0xD8, 2, 0xFF], [0xD9, 3]]
        = Inr (st', g', frames) \<and>
      pending_part (buffer st) = pending_part (buffer st') \<and>
      frames = frames_markers [1, 0xFF, 0xD8, 2, 0xFF, 0xD9, 3]) \<and>
   concat [replicate 5242881 0, [0xFF], [0xD8, 2, 0xFF, 0xD9 :: byte]]
     = concat [replicate 5242881 0 @ [0xFF, 0xD8, 2, 0xFF, 0xD9]] \<and>
   on_data ''jpeg-markers'' initial_conn initial_globals (replicate 5242881 0)
     = Inr (\<lparr>buffer = replicate 1048576 0, pendingLen = None\<rparr>, initial_globals, []) \<and>
   (\<exists>st st' g' frames.
      feed ''jpeg-markers'' initial_conn initial_globals
          [replicate 5242881 0, [0xFF], [0xD8, 2, 0xFF, 0xD9]]
        = Inr (st, g', frames) \<and>
      feed ''jpeg-markers'' initial_conn initial_globals
          [replicate 5242881 0 @ [0xFF, 0xD8, 2, 0xFF, 0xD9]]
        = Inr (st', g', frames) \<and>
      pending_part (buffer st) = pending_part (buffer st'))"
proof -
  have trim: "on_data ''jpeg-markers'' initial_conn initial_globals (replicate 5242881 0)
     = Inr (\<lparr>buffer = replicate 1048576 0, pendingLen = None\<rparr>, initial_globals, [])"
    using loop_markers_absent [OF zeros_absent(1), of 5242881 None initial_globals]
    by (simp add: on_data_def initial_conn_def)
  show ?thesis
    using marker_chunking_invariant [of "''jpeg-markers''" "[[1, 0xFF], [0xD8, 2, 0xFF, 0xD9, 3]]"
        "[[1, 0xFF, 0xD8, 2, 0xFF], [0xD9, 3]]" initial_globals]
      marker_chunking_invariant [of "''jpeg-markers''"
        "[replicate 5242881 0, [0xFF], [0xD8, 2, 0xFF, 0xD9]]"
        "[replicate 5242881 0 @ [0xFF, 0xD8, 2, 0xFF, 0xD9]]" initial_globals]
      trim
    by auto
qed

text \<open>
  Claim C2.  In length-prefix mode, a byte stream delivered to a fresh connection in
  chunks yields the same frames, the same module state and the same connection state
  however it is cut into chunks, namely those of one run of the loop on the whole stream.
  A header whose frame is not yet complete is consumed at once and its length is kept in
  \<open>pendingLen\<close> for the chunks to come.
\<close>

theorem len_prefix_chunking_invariant:
  "(concat chunks = concat chunks' \<longrightarrow>
     (\<exists>st g' frames.
        feed ''len-prefix'' initial_conn g chunks = Inr (st, g', frames) \<and>
        feed ''len-prefix'' initial_conn g chunks' = Inr (st, g', frames) \<and>
        loop_len \<lparr>buffer = concat chunks, pendingLen = None\<rparr> g = Inr (st, g', frames))) \<and>
   (4 \<le> length b \<and> readUInt32BE b 0 = Inr n \<and> length b - 4 < n \<longrightarrow>
      on_data ''len-prefix'' initial_conn g b
        = Inr (\<lparr>buffer = drop 4 b, pendingLen = Some n\<rparr>, g, []))"
proof (intro conjI impI)
  assume eq: "concat chunks = concat chunks'"
  have m: "more_data initial_conn bs = \<lparr>buffer = bs, pendingLen = None\<rparr>" for bs
    by (simp add: more_data_conn initial_conn_def)
  show "\<exists>st g' frames.
        feed ''len-prefix'' initial_conn g chunks = Inr (st, g', frames) \<and>
        feed ''len-prefix'' initial_conn g chunks' = Inr (st, g', frames) \<and>
        loop_len \<lparr>buffer = concat chunks, pendingLen = None\<rparr> g = Inr (st, g', frames)"
    using eq feed_len [OF initial_conn_waits, of g chunks]
      feed_len [OF initial_conn_waits, of g chunks']
    by (simp add: m loop_len_extract)
next
  assume h: "4 \<le> length b \<and> readUInt32BE b 0 = Inr n \<and> length b - 4 < n"
  have m: "more_data initial_conn b = \<lparr>buffer = b, pendingLen = None\<rparr>"
    by (simp add: more_data_conn initial_conn_def)
  from h have "extract_len \<lparr>buffer = b, pendingLen = None\<rparr>
                 = (\<lparr>buffer = drop 4 b, pendingLen = Some n\<rparr>, [])"
    by (simp add: extract_len_header extract_len_wait_body)
  then show "on_data ''len-prefix'' initial_conn g b
        = Inr (\<lparr>buffer = drop 4 b, pendingLen = Some n\<rparr>, g, [])"
    by (simp add: on_data_len m deliver_def)
qed

theorem len_prefix_chunking_invariant_witness:
  "concat [[0, 0, 0, 2, 7], [8, 0, 0], [0, 1, 9 :: byte]] = concat [[0, 0, 0, 2, 7, 8, 0, 0, 0, 1, 9]] \<and>
   (\<exists>st g' frames.
      feed ''len-prefix'' initial_conn initial_globals [[0, 0, 0, 2, 7], [8, 0, 0], [0, 1, 9]]
        = Inr (st, g', frames) \<and>
      feed ''len-prefix'' initial_conn initial_globals [[0, 0, 0, 2, 7, 8, 0, 0, 0, 1, 9]]
        = Inr (st, g', frames) \<and>
      loop_len \<lparr>buffer = [0, 0, 0, 2, 7, 8, 0, 0, 0, 1, 9], pendingLen = None\<rparr> initial_globals
        = Inr (st, g', frames)) \<and>
   4 \<le> length [0, 0, 0, 5, 1, 2 :: byte] \<and> readUInt32BE [0, 0, 0, 5, 1, 2] 0 = Inr 5 \<and>
   length [0, 0, 0, 5, 1, 2 :: byte] - 4 < 5 \<and>
   on_data ''len-prefix'' initial_conn initial_globals [0, 0, 0, 5, 1, 2]
     = Inr (\<lparr>buffer = [1, 2], pendingLen = Some 5\<rparr>, initial_globals, [])"
  using len_prefix_chunking_invariant [of "[[0, 0, 0, 2, 7], [8, 0, 0], [0, 1, 9]]"
      "[[0, 0, 0, 2, 7, 8, 0, 0, 0, 1, 9]]" initial_globals "[0, 0, 0, 5, 1, 2]" 5]
  by (simp add: readUInt32BE_def)

section \<open>A pending start marker\<close>

lemma on_data_markers_conn:
  "FRAME_MODE \<noteq> ''len-prefix'' \<Longrightarrow>
   on_data FRAME_MODE st g c
     = Inr (fst (extract_markers (more_data st c)),
            deliver g (snd (extract_markers (more_data st c))),
            snd (extract_markers (more_data st c)))"
  by (simp add: on_data_def Let_def more_data_def loop_markers_extract)

lemma loop_markers_wait:
  "first_at SOI (buffer st) 0 s \<Longrightarrow> absent_from EOI (buffer st) (s + 2) \<Longrightarrow>
   loop_markers st g = Inr (st, g, [])"
  by (simp add: loop_markers_extract extract_markers_Break [OF marker_iter_wait] deliver_def)

text \<open>
  Claim C5.  In marker mode, when the buffer with the new chunk appended holds a start
  marker \<open>0xFFD8\<close> (the first one at index \<open>s\<close>) and no end marker \<open>0xFFD9\<close> at or
  after \<open>s + 2\<close>, the handler extracts nothing, leaves the module state alone and keeps
  the whole buffer.  No bound on the length of the buffer is assumed: the trim at 5 MB
  is not applied in this state.
\<close>

theorem pending_start_marker_retained:
  assumes "FRAME_MODE \<noteq> ''len-prefix''"
    and "first_at SOI (buffer st @ chunk) 0 s"
    and "absent_from EOI (buffer st @ chunk) (s + 2)"
  shows "on_data FRAME_MODE st g chunk = Inr (st\<lparr>buffer := buffer st @ chunk\<rparr>, g, [])"
  using assms loop_markers_wait [of "st\<lparr>buffer := buffer st @ chunk\<rparr>" s g]
  by (simp add: on_data_def Let_def)

theorem pending_start_marker_retained_witness:
  "''jpeg-markers'' \<noteq> ''len-prefix'' \<and>
   first_at SOI (buffer \<lparr>buffer = [7, 0xFF], pendingLen = None\<rparr> @ [0xD8, 1, 0xFF]) 0 1 \<and>
   absent_from EOI (buffer \<lparr>buffer = [7, 0xFF], pendingLen = None\<rparr> @ [0xD8, 1, 0xFF]) (1 + 2) \<and>
   on_data ''jpeg-markers'' \<lparr>buffer = [7, 0xFF], pendingLen = None\<rparr> initial_globals [0xD8, 1, 0xFF]
     = Inr (\<lparr>buffer = [7, 0xFF, 0xD8, 1, 0xFF], pendingLen = None\<rparr>, initial_globals, [])"
proof -
  have 1: "first_at SOI (buffer \<lparr>buffer = [7, 0xFF], pendingLen = None\<rparr> @ [0xD8, 1, 0xFF]) 0 1"
    by (simp add: first_at_def occurs_at_def SOI_def)
  have 2: "absent_from EOI (buffer \<lparr>buffer = [7, 0xFF], pendingLen = None\<rparr> @ [0xD8, 1, 0xFF]) (1 + 2)"
    by (simp add: absent_from_def occurs_at_def EOI_def upt_rec)
  show ?thesis
    using pending_start_marker_retained [OF _ 1 2, of "''jpeg-markers''" initial_globals] 1 2
    by simp
qed

text \<open>An instance above the high-water mark: a start marker and 5 MB of zero bytes.\<close>

lemma pending_start_marker_above_high_water:
  "5 * 1024 * 1024 < length (SOI @ replicate 5242880 0) \<and>
   loop_markers \<lparr>buffer = SOI @ replicate 5242880 0, pendingLen = None\<rparr> g
     = Inr (\<lparr>buffer = SOI @ replicate 5242880 0, pendingLen = None\<rparr>, g, [])"
proof -
  have 1: "first_at SOI (SOI @ replicate 5242880 0) 0 0"
    by (simp add: first_at_def occurs_at_def)
  have 2: "absent_from EOI (SOI @ replicate 5242880 0) (0 + 2)"
    using absent_from_shift [OF markers_nonempty(2) zeros_absent(2), of SOI 5242880]
    by (simp add: numeral_2_eq_2)
  from loop_markers_wait [of "\<lparr>buffer = SOI @ replicate 5242880 0, pendingLen = None\<rparr>" 0 g] 1 2
  show ?thesis by simp
qed

section \<open>Frames below the minimum size\<close>

lemma handleFrame_short: "length f < 128 \<Longrightarrow> handleFrame (Some f) g = g"
  by (simp add: handleFrame_def)

lemma loop_markers_frame:
  assumes "first_at SOI b 0 s" "first_at EOI b (s + 2) e"
  shows "\<exists>st' g' fs.
           loop_markers \<lparr>buffer = drop (e + 2) b, pendingLen = p\<rparr>
               (handleFrame (Some (take (e + 2 - s) (drop s b))) g) = Inr (st', g', fs) \<and>
           loop_markers \<lparr>buffer = b, pendingLen = p\<rparr> g
             = Inr (st', g', take (e + 2 - s) (drop s b) # fs)"
proof -
  have "marker_iter \<lparr>buffer = b, pendingLen = p\<rparr>
          = Continue \<lparr>buffer = drop (e + 2) b, pendingLen = p\<rparr> (take (e + 2 - s) (drop s b))"
    using marker_iter_frame [of "\<lparr>buffer = b, pendingLen = p\<rparr>" s e] assms by simp
  then show ?thesis
    by (simp add: loop_markers_extract extract_markers_Continue deliver_def)
qed

lemma loop_len_frame:
  assumes "4 \<le> length b" "readUInt32BE b 0 = Inr n" "n \<le> length b - 4"
  shows "\<exists>st' g' fs.
           loop_len \<lparr>buffer = drop (4 + n) b, pendingLen = None\<rparr>
               (handleFrame (Some (take n (drop 4 b))) g) = Inr (st', g', fs) \<and>
           loop_len \<lparr>buffer = b, pendingLen = None\<rparr> g
             = Inr (st', g', take n (drop 4 b) # fs)"
proof -
  have "extract_len \<lparr>buffer = b, pendingLen = None\<rparr>
          = (fst (extract_len \<lparr>buffer = drop (4 + n) b, pendingLen = None\<rparr>),
             take n (drop 4 b) # snd (extract_len \<lparr>buffer = drop (4 + n) b, pendingLen = None\<rparr>))"
    using assms by (simp add: extract_len_header extract_len_frame add.commute)
  then show ?thesis
    by (simp add: loop_len_extract deliver_def)
qed

text \<open>
  Claim C3.  A frame of fewer than 128 bytes leaves the module state as it is:
  \<open>latestFrame\<close>, \<open>framesReceived\<close> and \<open>bytesLastFrame\<close> keep their values.  The
  buffer is advanced past the frame all the same.  In marker mode, with the first start
  marker at \<open>s\<close> and the first end marker after it at \<open>e\<close>, the run of the loop on the
  buffer ends as the run on the buffer without its first \<open>e + 2\<close> bytes does, started in
  the module state that \<open>handleFrame\<close> leaves; for a frame below 128 bytes that is the
  module state before the frame.  In length-prefix mode the same holds with the first
  \<open>4 + n\<close> bytes, \<open>n\<close> being the length the header declares.
\<close>

theorem short_frame_dropped_but_consumed:
  "(length f < 128 \<longrightarrow> handleFrame (Some f) g = g) \<and>
   (first_at SOI b 0 s \<and> first_at EOI b (s + 2) e \<longrightarrow>
      (\<exists>st' g' fs.
         loop_markers \<lparr>buffer = drop (e + 2) b, pendingLen = p\<rparr>
             (handleFrame (Some (take (e + 2 - s) (drop s b))) g) = Inr (st', g', fs) \<and>
         loop_markers \<lparr>buffer = b, pendingLen = p\<rparr> g
           = Inr (st', g', take (e + 2 - s) (drop s b) # fs))) \<and>
   (first_at SOI b 0 s \<and> first_at EOI b (s + 2) e \<and> e + 2 - s < 128 \<longrightarrow>
      (\<exists>st' g' fs.
         loop_markers \<lparr>buffer = drop (e + 2) b, pendingLen = p\<rparr> g = Inr (st', g', fs) \<and>
         loop_markers \<lparr>buffer = b, pendingLen = p\<rparr> g
           = Inr (st', g', take (e + 2 - s) (drop s b) # fs))) \<and>
   (4 \<le> length b \<and> readUInt32BE b 0 = Inr n \<and> n \<le> length b - 4 \<longrightarrow>
      (\<exists>st' g' fs.
         loop_len \<lparr>buffer = drop (4 + n) b, pendingLen = None\<rparr>
             (handleFrame (Some (take n (drop 4 b))) g) = Inr (st', g', fs) \<and>
         loop_len \<lparr>buffer = b, pendingLen = None\<rparr> g
           = Inr (st', g', take n (drop 4 b) # fs))) \<and>
   (4 \<le> length b \<and> readUInt32BE b 0 = Inr n \<and> n \<le> length b - 4 \<and> n < 128 \<longrightarrow>
      (\<exists>st' g' fs.
         loop_len \<lparr>buffer = drop (4 + n) b, pendingLen = None\<rparr> g = Inr (st', g', fs) \<and>
         loop_len \<lparr>buffer = b, pendingLen = None\<rparr> g
           = Inr (st', g', take n (drop 4 b) # fs)))"
proof (intro conjI impI)
  assume "length f < 128"
  then show "handleFrame (Some f) g = g" by (rule handleFrame_short)
next
  assume "first_at SOI b 0 s \<and> first_at EOI b (s + 2) e"
  then show "\<exists>st' g' fs.
         loop_markers \<lparr>buffer = drop (e + 2) b, pendingLen = p\<rparr>
             (handleFrame (Some (take (e + 2 - s) (drop s b))) g) = Inr (st', g', fs) \<and>
         loop_markers \<lparr>buffer = b, pendingLen = p\<rparr> g
           = Inr (st', g', take (e + 2 - s) (drop s b) # fs)"
    using loop_markers_frame [of b s e p g] by blast
next
  assume h: "first_at SOI b 0 s \<and> first_at EOI b (s + 2) e \<and> e + 2 - s < 128"
  then have "length (take (e + 2 - s) (drop s b)) < 128"
    by auto
  then have "handleFrame (Some (take (e + 2 - s) (drop s b))) g = g"
    by (rule handleFrame_short)
  moreover from h have "first_at SOI b 0 s" "first_at EOI b (s + 2) e" by simp_all
  note loop_markers_frame [OF this, of p g]
  ultimately show "\<exists>st' g' fs.
         loop_markers \<lparr>buffer = drop (e + 2) b, pendingLen = p\<rparr> g = Inr (st', g', fs) \<and>
         loop_markers \<lparr>buffer = b, pendingLen = p\<rparr> g
           = Inr (st', g', take (e + 2 - s) (drop s b) # fs)"
    by simp
next
  assume "4 \<le> length b \<and> readUInt32BE b 0 = Inr n \<and> n \<le> length b - 4"
  then show "\<exists>st' g' fs.
         loop_len \<lparr>buffer = drop (4 + n) b, pendingLen = None\<rparr>
             (handleFrame (Some (take n (drop 4 b))) g) = Inr (st', g', fs) \<and>
         loop_len \<lparr>buffer = b, pendingLen = None\<rparr> g
           = Inr (st', g', take n (drop 4 b) # fs)"
    using loop_len_frame [of b n g] by blast
next
  assume h: "4 \<le> length b \<and> readUInt32BE b 0 = Inr n \<and> n \<le> length b - 4 \<and> n < 128"
  then have "length (take n (drop 4 b)) < 128"
    by auto
  then have "handleFrame (Some (take n (drop 4 b))) g = g"
    by (rule handleFrame_short)
  moreover from h have "4 \<le> length b" "readUInt32BE b 0 = Inr n" "n \<le> length b - 4"
    by simp_all
  note loop_len_frame [OF this, of g]
  ultimately show "\<exists>st' g' fs.
         loop_len \<lparr>buffer = drop (4 + n) b, pendingLen = None\<rparr> g = Inr (st', g', fs) \<and>
         loop_len \<lparr>buffer = b, pendingLen = None\<rparr> g
           = Inr (st', g', take n (drop 4 b) # fs)"
    by simp
qed

theorem short_frame_dropped_but_consumed_witness:
  "length [0xFF, 0xD8, 1, 0xFF, 0xD9 :: byte] < 128 \<and>
   handleFrame (Some [0xFF, 0xD8, 1, 0xFF, 0xD9]) initial_globals = initial_globals \<and>
   first_at SOI [9, 0xFF, 0xD8, 1, 0xFF, 0xD9, 8] 0 1 \<and>
   first_at EOI [9, 0xFF, 0xD8, 1, 0xFF, 0xD9, 8] (1 + 2) 4 \<and> 4 + 2 - 1 < (128 :: nat) \<and>
   (\<exists>st' g' fs.
      loop_markers \<lparr>buffer = [8], pendingLen = None\<rparr> initial_globals = Inr (st', g', fs) \<and>
      loop_markers \<lparr>buffer = [9, 0xFF, 0xD8, 1, 0xFF, 0xD9, 8], pendingLen = None\<rparr> initial_globals
        = Inr (st', g', [0xFF, 0xD8, 1, 0xFF, 0xD9] # fs)) \<and>
   4 \<le> length [0, 0, 0, 2, 5, 6, 7 :: byte] \<and> readUInt32BE [0, 0, 0, 2, 5, 6, 7] 0 = Inr 2 \<and>
   2 \<le> length [0, 0, 0, 2, 5, 6, 7 :: byte] - 4 \<and> (2 :: nat) < 128 \<and>
   (\<exists>st' g' fs.
      loop_len \<lparr>buffer = [7], pendingLen = None\<rparr> initial_globals = Inr (st', g', fs) \<and>
      loop_len \<lparr>buffer = [0, 0, 0, 2, 5, 6, 7], pendingLen = None\<rparr> initial_globals
        = Inr (st', g', [5, 6] # fs))"
proof -
  have 1: "first_at SOI [9, 0xFF, 0xD8, 1, 0xFF, 0xD9, 8] 0 1"
    by (simp add: first_at_def occurs_at_def SOI_def)
  have 2: "first_at EOI [9, 0xFF, 0xD8, 1, 0xFF, 0xD9, 8] (1 + 2) 4"
    by (simp add: first_at_def occurs_at_def EOI_def upt_rec)
  have 3: "readUInt32BE [0, 0, 0, 2, 5, 6, 7] 0 = Inr 2"
    by (simp add: readUInt32BE_def)
  show ?thesis
    using short_frame_dropped_but_consumed
      [of "[0xFF, 0xD8, 1, 0xFF, 0xD9]" initial_globals "[9, 0xFF, 0xD8, 1, 0xFF, 0xD9, 8]" 1 4 None]
      short_frame_dropped_but_consumed
      [of "[]" initial_globals "[0, 0, 0, 2, 5, 6, 7]" 0 0 None 2]
      1 2 3
    by simp
qed

section \<open>The cache and its counters\<close>

lemma cache_inv_handleFrame: "cache_inv g \<Longrightarrow> cache_inv (handleFrame frame g)"
  by (auto simp: cache_inv_def handleFrame_def split: option.splits)

lemma cache_inv_deliver: "cache_inv g \<Longrightarrow> cache_inv (deliver g fs)"
  unfolding deliver_def
  by (induction fs arbitrary: g) (simp_all add: cache_inv_handleFrame)

lemma on_data_delivers:
  "on_data FRAME_MODE st g c = Inr (st', g', fs) \<Longrightarrow> g' = deliver g fs"
  by (auto simp: on_data_def Let_def loop_len_extract loop_markers_extract split: if_splits)

text \<open>
  Claim C9.  Whenever \<open>latestFrame\<close> is not \<open>null\<close>, \<open>bytesLastFrame\<close> is the length of
  \<open>latestFrame\<close> and \<open>framesReceived\<close> is at least 1.  This holds in the initial module
  state and every call of \<open>handleFrame\<close> keeps it, hence so does every \<open>data\<close> event; under
  it the \<open>/stats\<close> snapshot reports the size of the frame that is cached.
\<close>

theorem cache_describes_latest_frame:
  "cache_inv initial_globals \<and>
   (cache_inv g \<longrightarrow> cache_inv (handleFrame frame g)) \<and>
   (cache_inv g \<and> on_data FRAME_MODE st g chunk = Inr (st', g', fs) \<longrightarrow> cache_inv g') \<and>
   (cache_inv g \<and> latestFrame g = Some f \<longrightarrow>
      stats_bytesLastFrame (get_stats FRAME_MODE fps g) = length f \<and>
      1 \<le> stats_framesReceived (get_stats FRAME_MODE fps g))"
proof (intro conjI impI)
  show "cache_inv initial_globals"
    by (simp add: cache_inv_def initial_globals_def)
next
  assume "cache_inv g"
  then show "cache_inv (handleFrame frame g)" by (rule cache_inv_handleFrame)
next
  assume "cache_inv g \<and> on_data FRAME_MODE st g chunk = Inr (st', g', fs)"
  then show "cache_inv g'"
    using on_data_delivers [of FRAME_MODE st g chunk st' g' fs] by (simp add: cache_inv_deliver)
next
  assume h: "cache_inv g \<and> latestFrame g = Some f"
  then show "stats_bytesLastFrame (get_stats FRAME_MODE fps g) = length f"
    by (auto simp: cache_inv_def get_stats_def)
  from h show "1 \<le> stats_framesReceived (get_stats FRAME_MODE fps g)"
    by (auto simp: cache_inv_def get_stats_def)
qed

theorem cache_describes_latest_frame_witness:
  "cache_inv initial_globals \<and>
   cache_inv (handleFrame (Some (replicate 128 0)) initial_globals) \<and>
   on_data ''len-prefix'' initial_conn initial_globals [0, 0, 0, 1, 5]
     = Inr (initial_conn, initial_globals, [[5]]) \<and>
   latestFrame (handleFrame (Some (replicate 128 0)) initial_globals) = Some (replicate 128 0) \<and>
   stats_bytesLastFrame (get_stats ''len-prefix'' 12 (handleFrame (Some (replicate 128 0)) initial_globals))
     = length (replicate 128 (0 :: byte)) \<and>
   1 \<le> stats_framesReceived (get_stats ''len-prefix'' 12 (handleFrame (Some (replicate 128 0)) initial_globals))"
proof -
  have i: "cache_inv initial_globals"
    by (simp add: cache_inv_def initial_globals_def)
  have r: "readUInt32BE [0, 0, 0, 1, 5] 0 = Inr 1"
    by (simp add: readUInt32BE_def)
  have m: "more_data initial_conn [0, 0, 0, 1, 5] = \<lparr>buffer = [0, 0, 0, 1, 5], pendingLen = None\<rparr>"
    by (simp add: more_data_def initial_conn_def)
  have "extract_len \<lparr>buffer = [0, 0, 0, 1, 5], pendingLen = None\<rparr> = (initial_conn, [[5]])"
    using r
    by (simp add: extract_len_header extract_len_frame extract_len_wait_header initial_conn_def)
  then have o: "on_data ''len-prefix'' initial_conn initial_globals [0, 0, 0, 1, 5]
     = Inr (initial_conn, initial_globals, [[5]])"
    by (simp add: on_data_len m deliver_def handleFrame_def)
  have l: "latestFrame (handleFrame (Some (replicate 128 0)) initial_globals) = Some (replicate 128 0)"
    by (simp add: handleFrame_def)
  show ?thesis
    using cache_describes_latest_frame [of initial_globals "Some (replicate 128 0)"
        "''len-prefix''" initial_conn "[0, 0, 0, 1, 5]" initial_conn initial_globals "[[5]]"]
      cache_describes_latest_frame [of "handleFrame (Some (replicate 128 0)) initial_globals" None
        "''len-prefix''" initial_conn "[]" initial_conn initial_globals "[]" "replicate 128 0" 12]
      i o l
    by simp
qed

section \<open>A length-prefix scenario\<close>

lemma on_data_len_pending:
  "on_data ''len-prefix'' \<lparr>buffer = b, pendingLen = p\<rparr> g c
     = Inr (fst (extract_len \<lparr>buffer = b @ c, pendingLen = p\<rparr>),
            deliver g (snd (extract_len \<lparr>buffer = b @ c, pendingLen = p\<rparr>)),
            snd (extract_len \<lparr>buffer = b @ c, pendingLen = p\<rparr>))"
  by (simp add: on_data_len more_data_def)

lemma deliver_short: "length f < 128 \<Longrightarrow> deliver g [f] = g"
  by (simp add: deliver_def handleFrame_def)

text \<open>
  Claim C8.  In length-prefix mode the nine bytes \<open>00 00 00 05 'A' 'B' 'C' 'D' 'E'\<close>
  arriving on a fresh connection yield exactly one frame, \<open>ABCDE\<close>, of length 5, and
  leave the connection as it began.  The six bytes \<open>00 00 00 05 'A' 'B'\<close> arriving then
  yield no frame and leave \<open>AB\<close> in the buffer with \<open>pendingLen = 5\<close>.  From there a
  chunk of fewer than 3 bytes yields no frame, and a chunk of 3 bytes completes the frame.
\<close>

theorem len_prefix_scenario:
  "on_data ''len-prefix'' initial_conn g [0x00, 0x00, 0x00, 0x05, 0x41, 0x42, 0x43, 0x44, 0x45]
     = Inr (initial_conn, g, [[0x41, 0x42, 0x43, 0x44, 0x45]]) \<and>
   length [0x41, 0x42, 0x43, 0x44, 0x45 :: byte] = 5 \<and>
   on_data ''len-prefix'' initial_conn g [0x00, 0x00, 0x00, 0x05, 0x41, 0x42]
     = Inr (\<lparr>buffer = [0x41, 0x42], pendingLen = Some 5\<rparr>, g, []) \<and>
   (length c < 3 \<longrightarrow>
      on_data ''len-prefix'' \<lparr>buffer = [0x41, 0x42], pendingLen = Some 5\<rparr> g c
        = Inr (\<lparr>buffer = [0x41, 0x42] @ c, pendingLen = Some 5\<rparr>, g, [])) \<and>
   (length c = 3 \<longrightarrow>
      on_data ''len-prefix'' \<lparr>buffer = [0x41, 0x42], pendingLen = Some 5\<rparr> g c
        = Inr (initial_conn, g, [[0x41, 0x42] @ c]))"
proof (intro conjI impI)
  have r: "readUInt32BE ([0, 0, 0, 5] @ xs) 0 = Inr 5" for xs
    by (simp add: readUInt32BE_def)
  show "on_data ''len-prefix'' initial_conn g [0x00, 0x00, 0x00, 0x05, 0x41, 0x42, 0x43, 0x44, 0x45]
     = Inr (initial_conn, g, [[0x41, 0x42, 0x43, 0x44, 0x45]])"
    using r [of "[0x41, 0x42, 0x43, 0x44, 0x45]"]
    by (simp add: initial_conn_def on_data_len_pending extract_len_header extract_len_frame
                  extract_len_wait_header deliver_short)
  show "on_data ''len-prefix'' initial_conn g [0x00, 0x00, 0x00, 0x05, 0x41, 0x42]
     = Inr (\<lparr>buffer = [0x41, 0x42], pendingLen = Some 5\<rparr>, g, [])"
    using r [of "[0x41, 0x42]"]
    by (simp add: initial_conn_def on_data_len_pending extract_len_header extract_len_wait_body
                  deliver_def)
  show "length [0x41, 0x42, 0x43, 0x44, 0x45 :: byte] = 5" by simp
next
  assume "length c < 3"
  then show "on_data ''len-prefix'' \<lparr>buffer = [0x41, 0x42], pendingLen = Some 5\<rparr> g c
        = Inr (\<lparr>buffer = [0x41, 0x42] @ c, pendingLen = Some 5\<rparr>, g, [])"
    by (simp add: on_data_len_pending extract_len_wait_body deliver_def)
next
  assume "length c = 3"
  then show "on_data ''len-prefix'' \<lparr>buffer = [0x41, 0x42], pendingLen = Some 5\<rparr> g c
        = Inr (initial_conn, g, [[0x41, 0x42] @ c])"
    by (simp add: on_data_len_pending extract_len_frame extract_len_wait_header deliver_short
                  initial_conn_def)
qed

theorem len_prefix_scenario_witness:
  "on_data ''len-prefix'' initial_conn initial_globals
       [0x00, 0x00, 0x00, 0x05, 0x41, 0x42, 0x43, 0x44, 0x45]
     = Inr (initial_conn, initial_globals, [[0x41, 0x42, 0x43, 0x44, 0x45]]) \<and>
   on_data ''len-prefix'' initial_conn initial_globals [0x00, 0x00, 0x00, 0x05, 0x41, 0x42]
     = Inr (\<lparr>buffer = [0x41, 0x42], pendingLen = Some 5\<rparr>, initial_globals, []) \<and>
   length [0x43, 0x44 :: byte] < 3 \<and>
   on_data ''len-prefix'' \<lparr>buffer = [0x41, 0x42], pendingLen = Some 5\<rparr> initial_globals [0x43, 0x44]
     = Inr (\<lparr>buffer = [0x41, 0x42, 0x43, 0x44], pendingLen = Some 5\<rparr>, initial_globals, []) \<and>
   length [0x43, 0x44, 0x45 :: byte] = 3 \<and>
   on_data ''len-prefix'' \<lparr>buffer = [0x41, 0x42], pendingLen = Some 5\<rparr> initial_globals
       [0x43, 0x44, 0x45]
     = Inr (initial_conn, initial_globals, [[0x41, 0x42, 0x43, 0x44, 0x45]])"
  using len_prefix_scenario [of initial_globals "[0x43, 0x44]"]
    len_prefix_scenario [of initial_globals "[0x43, 0x44, 0x45]"]
  by simp

section \<open>Termination of the loops\<close>

lemma marker_iter_Continue_consumes:
  assumes "marker_iter st = Continue st' f"
  shows "length (buffer st') + 4 \<le> length (buffer st) \<and> 4 \<le> length f
         \<and> pendingLen st' = pendingLen st"
proof (cases "buffer st" rule: marker_cases)
  case absent
  with assms show ?thesis by (simp add: marker_iter_absent)
next
  case (wait s)
  with assms show ?thesis by (simp add: marker_iter_wait)
next
  case (frame s e)
  from first_at_in_range [OF markers_nonempty(2) frame(2)]
  have r: "e + 2 \<le> length (buffer st)" by simp
  have le: "s + 2 \<le> e" using frame(2) by (simp add: first_at_iff)
  from assms marker_iter_frame [OF frame]
  have eq: "st' = st\<lparr>buffer := drop (e + 2) (buffer st)\<rparr>"
    "f = take (e + 2 - s) (drop s (buffer st))"
    by simp_all
  have "length (drop (e + 2) (buffer st)) + 4 \<le> length (buffer st)"
    unfolding length_drop using r le by arith
  moreover have "4 \<le> length (take (e + 2 - s) (drop s (buffer st)))"
    unfolding length_take length_drop using r le by arith
  ultimately show ?thesis
    by (simp add: eq)
qed

lemma len_iter_Continue_None:
  assumes "pendingLen st = None" "len_iter st = Continue st' f"
  shows "length (buffer st') + 4 + length f = length (buffer st) \<and> pendingLen st' = None
         \<and> readUInt32BE (buffer st) 0 = Inr (length f)"
  using assms
  by (auto simp: len_iter_def len_body_def slice_from_nat slice_0_nat slice_from_nonneg
           split: if_splits sum.splits)

lemma len_iter_Continue_Some:
  assumes "pendingLen st = Some n" "len_iter st = Continue st' f"
  shows "length (buffer st') + n = length (buffer st) \<and> length f = n \<and> pendingLen st' = None"
  using assms
  by (auto simp: len_iter_def len_body_def slice_from_nat slice_0_nat split: if_splits)

lemma on_data_len_pending_positive:
  assumes "on_data ''len-prefix'' st g c = Inr (st', g', fs)" "pendingLen st' = Some n"
  shows "length (buffer st') < n"
proof -
  from assms(1) have "st' = fst (extract_len (more_data st c))"
    by (simp add: on_data_len)
  then have "len_iter st' = Break st'"
    by (simp add: extract_len_stops)
  with assms(2) show ?thesis
    by (auto simp: len_iter_def len_body_def split: if_splits)
qed

text \<open>
  Claim C10, as stated, says that every completed pass of a loop consumes at least 4
  bytes.  In length-prefix mode that fails for a pass that starts with a \<open>pendingLen\<close>
  kept from an earlier chunk: after \<open>00 00 00 02 07\<close> the connection holds one byte and
  \<open>pendingLen = 2\<close>; when one more byte arrives, the pass completes and consumes 2 bytes.
\<close>

theorem iteration_consumes_four_counterexample:
  "on_data ''len-prefix'' initial_conn initial_globals [0, 0, 0, 2, 7]
     = Inr (\<lparr>buffer = [7], pendingLen = Some 2\<rparr>, initial_globals, []) \<and>
   len_iter \<lparr>buffer = [7] @ [8], pendingLen = Some 2\<rparr>
     = Continue \<lparr>buffer = [], pendingLen = None\<rparr> [7, 8] \<and>
   \<not> length (buffer \<lparr>buffer = [], pendingLen = None\<rparr>) + 4
       \<le> length (buffer \<lparr>buffer = [7] @ [8 :: byte], pendingLen = Some 2\<rparr>)"
proof -
  have r: "readUInt32BE [0, 0, 0, 2, 7] 0 = Inr 2"
    by (simp add: readUInt32BE_def)
  have "on_data ''len-prefix'' initial_conn initial_globals [0, 0, 0, 2, 7]
     = Inr (\<lparr>buffer = [7], pendingLen = Some 2\<rparr>, initial_globals, [])"
    using r
    by (simp add: initial_conn_def on_data_len_pending extract_len_header extract_len_wait_body
                  deliver_def)
  moreover have "len_iter \<lparr>buffer = [7] @ [8], pendingLen = Some 2\<rparr>
     = Continue \<lparr>buffer = [], pendingLen = None\<rparr> [7, 8]"
    by (simp add: len_iter_def len_body_def slice_from_def slice_def clamp_index_def)
  ultimately show ?thesis by simp
qed

text \<open>
  Claim C10, amended.  Both loops, and with them the \<open>data\<close> handler, return for every
  buffer, every \<open>pendingLen\<close> and every module state, and without an exception.  A
  completed pass consumes at least 4 bytes in marker mode, where the frame has at least 4
  bytes, and in length-prefix mode when it starts with \<open>pendingLen = null\<close>: the 4 bytes
  of the header and the bytes of the frame, also when the declared length is 0.  A pass
  that starts with \<open>pendingLen = n\<close> consumes exactly \<open>n\<close> bytes, which may be fewer
  than 4, and sets \<open>pendingLen\<close> to \<open>null\<close>.  A \<open>pendingLen\<close> that the handler leaves
  behind is larger than the number of bytes in the buffer, so it is never 0.
\<close>

theorem drain_loops_terminate:
  "(\<exists>st' g' fs. loop_len st g = Inr (st', g', fs)) \<and>
   (\<exists>st' g' fs. loop_markers st g = Inr (st', g', fs)) \<and>
   (\<exists>st' g' fs. on_data FRAME_MODE st g chunk = Inr (st', g', fs)) \<and>
   (marker_iter st = Continue st' f \<longrightarrow>
      length (buffer st') + 4 \<le> length (buffer st) \<and> 4 \<le> length f) \<and>
   (pendingLen st = None \<and> len_iter st = Continue st' f \<longrightarrow>
      length (buffer st') + 4 + length f = length (buffer st) \<and> pendingLen st' = None) \<and>
   (pendingLen st = Some n \<and> len_iter st = Continue st' f \<longrightarrow>
      length (buffer st') + n = length (buffer st) \<and> pendingLen st' = None) \<and>
   (on_data ''len-prefix'' st g chunk = Inr (st', g', fs) \<and> pendingLen st' = Some n \<longrightarrow>
      length (buffer st') < n)"
proof (intro conjI impI)
  show "\<exists>st' g' fs. loop_len st g = Inr (st', g', fs)"
    by (simp add: loop_len_extract)
  show "\<exists>st' g' fs. loop_markers st g = Inr (st', g', fs)"
    by (simp add: loop_markers_extract)
  show "\<exists>st' g' fs. on_data FRAME_MODE st g chunk = Inr (st', g', fs)"
    by (simp add: on_data_def Let_def loop_len_extract loop_markers_extract)
next
  assume "marker_iter st = Continue st' f"
  from marker_iter_Continue_consumes [OF this]
  show "length (buffer st') + 4 \<le> length (buffer st)" "4 \<le> length f"
    by simp_all
next
  assume h: "pendingLen st = None \<and> len_iter st = Continue st' f"
  then have "pendingLen st = None" "len_iter st = Continue st' f" by simp_all
  from len_iter_Continue_None [OF this]
  show "length (buffer st') + 4 + length f = length (buffer st)" "pendingLen st' = None"
    by simp_all
next
  assume h: "pendingLen st = Some n \<and> len_iter st = Continue st' f"
  then have "pendingLen st = Some n" "len_iter st = Continue st' f" by simp_all
  from len_iter_Continue_Some [OF this]
  show "length (buffer st') + n = length (buffer st)" "pendingLen st' = None"
    by simp_all
next
  assume h: "on_data ''len-prefix'' st g chunk = Inr (st', g', fs) \<and> pendingLen st' = Some n"
  then have "on_data ''len-prefix'' st g chunk = Inr (st', g', fs)" "pendingLen st' = Some n"
    by simp_all
  then show "length (buffer st') < n"
    by (rule on_data_len_pending_positive)
qed


theorem drain_loops_terminate_witness:
  "marker_iter \<lparr>buffer = [0xFF, 0xD8, 0xFF, 0xD9], pendingLen = None\<rparr>
     = Continue \<lparr>buffer = [], pendingLen = None\<rparr> [0xFF, 0xD8, 0xFF, 0xD9] \<and>
   length (buffer \<lparr>buffer = [], pendingLen = None\<rparr>) + 4
     \<le> length (buffer \<lparr>buffer = [0xFF, 0xD8, 0xFF, 0xD9 :: byte], pendingLen = None\<rparr>) \<and>
   len_iter \<lparr>buffer = [0, 0, 0, 0], pendingLen = None\<rparr>
     = Continue \<lparr>buffer = [], pendingLen = None\<rparr> [] \<and>
   length (buffer \<lparr>buffer = [], pendingLen = None\<rparr>) + 4 + length ([] :: byte list)
     = length (buffer \<lparr>buffer = [0, 0, 0, 0 :: byte], pendingLen = None\<rparr>) \<and>
   len_iter \<lparr>buffer = [7, 8], pendingLen = Some 2\<rparr>
     = Continue \<lparr>buffer = [], pendingLen = None\<rparr> [7, 8] \<and>
   length (buffer \<lparr>buffer = [], pendingLen = None\<rparr>) + 2
     = length (buffer \<lparr>buffer = [7, 8 :: byte], pendingLen = Some 2\<rparr>) \<and>
   on_data ''len-prefix'' initial_conn initial_globals [0, 0, 0, 2, 7]
     = Inr (\<lparr>buffer = [7], pendingLen = Some 2\<rparr>, initial_globals, []) \<and>
   length (buffer \<lparr>buffer = [7 :: byte], pendingLen = Some 2\<rparr>) < 2"
proof -
  have 1: "marker_iter \<lparr>buffer = [0xFF, 0xD8, 0xFF, 0xD9], pendingLen = None\<rparr>
     = Continue \<lparr>buffer = [], pendingLen = None\<rparr> [0xFF, 0xD8, 0xFF, 0xD9]"
    by (simp add: marker_iter_def indexOf_def SOI_def EOI_def slice_from_def slice_def
                  clamp_index_def)
  have 2: "len_iter \<lparr>buffer = [0, 0, 0, 0], pendingLen = None\<rparr>
     = Continue \<lparr>buffer = [], pendingLen = None\<rparr> []"
    by (simp add: len_iter_def len_body_def readUInt32BE_def slice_from_def slice_def
                  clamp_index_def)
  have 3: "len_iter \<lparr>buffer = [7, 8], pendingLen = Some 2\<rparr>
     = Continue \<lparr>buffer = [], pendingLen = None\<rparr> [7, 8]"
    by (simp add: len_iter_def len_body_def slice_from_def slice_def clamp_index_def)
  have r: "readUInt32BE [0, 0, 0, 2, 7] 0 = Inr 2"
    by (simp add: readUInt32BE_def)
  have 4: "on_data ''len-prefix'' initial_conn initial_globals [0, 0, 0, 2, 7]
     = Inr (\<lparr>buffer = [7], pendingLen = Some 2\<rparr>, initial_globals, [])"
    using r
    by (simp add: initial_conn_def on_data_len_pending extract_len_header extract_len_wait_body
                  deliver_def)
  show ?thesis
    using 1 2 3 4
      drain_loops_terminate [of "\<lparr>buffer = [0xFF, 0xD8, 0xFF, 0xD9], pendingLen = None\<rparr>"
        initial_globals "''len-prefix''" "[]" "\<lparr>buffer = [], pendingLen = None\<rparr>"
        "[0xFF, 0xD8, 0xFF, 0xD9]"]
      drain_loops_terminate [of "\<lparr>buffer = [0, 0, 0, 0], pendingLen = None\<rparr>"
        initial_globals "''len-prefix''" "[]" "\<lparr>buffer = [], pendingLen = None\<rparr>" "[]"]
      drain_loops_terminate [of "\<lparr>buffer = [7, 8], pendingLen = Some 2\<rparr>"
        initial_globals "''len-prefix''" "[]" "\<lparr>buffer = [], pendingLen = None\<rparr>" "[7, 8]" 2]
      drain_loops_terminate [of initial_conn initial_globals "''len-prefix''" "[0, 0, 0, 2, 7]"
        "\<lparr>buffer = [7], pendingLen = Some 2\<rparr>" "[]" 2 initial_globals "[]"]
    by simp
qed

section \<open>The trim at the high-water mark\<close>

text \<open>
  Claim C4, as stated, says that a buffer of more than 5 MB made of garbage, \<open>0xFFD8\<close>,
  a body and \<open>0xFFD9\<close> has its garbage trimmed to the 1 MB tail and no more.  The loop
  trims only when it finds no start marker.  On 5242880 zero bytes followed by
  \<open>0xFFD8\<close>, 100 zero bytes and \<open>0xFFD9\<close> (5242984 bytes in all) it extracts the frame
  of 104 bytes and leaves the buffer empty: nothing of the garbage is kept, where a trim
  to the tail would have kept 1048576 bytes.
\<close>

theorem garbage_before_frame_counterexample:
  "5 * 1024 * 1024 < length (replicate 5242880 (0 :: byte) @ SOI @ replicate 100 0 @ EOI) \<and>
   loop_markers
       \<lparr>buffer = replicate 5242880 0 @ SOI @ replicate 100 0 @ EOI, pendingLen = None\<rparr>
       initial_globals
     = Inr (\<lparr>buffer = [], pendingLen = None\<rparr>, initial_globals,
            [SOI @ replicate 100 0 @ EOI]) \<and>
   length (slice_from (replicate 5242880 0 @ SOI @ replicate 100 0 @ EOI) (- 1024 * 1024))
     = 1024 * 1024"
proof -
  have "length (SOI @ replicate 100 0 @ EOI) < 128" by simp
  then have "handleFrame (Some (SOI @ replicate 100 0 @ EOI)) initial_globals = initial_globals"
    by (rule handleFrame_short)
  then have "loop_markers
       \<lparr>buffer = replicate 5242880 0 @ SOI @ replicate 100 0 @ EOI, pendingLen = None\<rparr>
       initial_globals
     = Inr (\<lparr>buffer = [], pendingLen = None\<rparr>, initial_globals,
            [SOI @ replicate 100 0 @ EOI])"
    using loop_markers_garbage_frame [OF zeros_absent(1) zeros_absent(2), of 5242880 100 None
        initial_globals]
    by simp
  moreover have "slice_from B (- 1048576) = drop (length B - 1048576) B" for B
    using slice_from_neg [of 1048576 B] by simp
  then have "length (slice_from (replicate 5242880 0 @ SOI @ replicate 100 0 @ EOI) (- 1048576))
               = 1048576"
    by simp
  ultimately show ?thesis by simp
qed

text \<open>
  Claim C4, amended.  The trim applies to a buffer without start marker only: such a
  buffer of more than 5 MB (5242880 bytes) is cut to exactly its last 1 MB (1048576
  bytes), and one of at most 5 MB is kept whole.  A buffer made of garbage without start
  marker, \<open>0xFFD8\<close>, a body without end marker and \<open>0xFFD9\<close> is not trimmed, whatever
  its size: the frame from \<open>0xFFD8\<close> through \<open>0xFFD9\<close> is extracted and the buffer is
  left empty, so all of the garbage goes with the frame.
\<close>

theorem trim_only_without_start_marker:
  "(absent_from SOI b 0 \<and> 5 * 1024 * 1024 < length b \<longrightarrow>
      loop_markers \<lparr>buffer = b, pendingLen = p\<rparr> g
        = Inr (\<lparr>buffer = drop (length b - 1024 * 1024) b, pendingLen = p\<rparr>, g, []) \<and>
      length (drop (length b - 1024 * 1024) b) = 1024 * 1024) \<and>
   (absent_from SOI b 0 \<and> length b \<le> 5 * 1024 * 1024 \<longrightarrow>
      loop_markers \<lparr>buffer = b, pendingLen = p\<rparr> g
        = Inr (\<lparr>buffer = b, pendingLen = p\<rparr>, g, [])) \<and>
   (absent_from SOI garbage 0 \<and> absent_from EOI body 0 \<longrightarrow>
      loop_markers \<lparr>buffer = garbage @ SOI @ body @ EOI, pendingLen = p\<rparr> g
        = Inr (\<lparr>buffer = [], pendingLen = p\<rparr>,
               handleFrame (Some (SOI @ body @ EOI)) g, [SOI @ body @ EOI]))"
proof (intro conjI impI)
  assume h: "absent_from SOI b 0 \<and> 5 * 1024 * 1024 < length b"
  then show "loop_markers \<lparr>buffer = b, pendingLen = p\<rparr> g
        = Inr (\<lparr>buffer = drop (length b - 1024 * 1024) b, pendingLen = p\<rparr>, g, [])"
    by (simp add: loop_markers_absent)
  from h show "length (drop (length b - 1024 * 1024) b) = 1024 * 1024"
    by simp
next
  assume "absent_from SOI b 0 \<and> length b \<le> 5 * 1024 * 1024"
  then show "loop_markers \<lparr>buffer = b, pendingLen = p\<rparr> g
        = Inr (\<lparr>buffer = b, pendingLen = p\<rparr>, g, [])"
    by (simp add: loop_markers_absent)
next
  assume "absent_from SOI garbage 0 \<and> absent_from EOI body 0"
  then show "loop_markers \<lparr>buffer = garbage @ SOI @ body @ EOI, pendingLen = p\<rparr> g
        = Inr (\<lparr>buffer = [], pendingLen = p\<rparr>,
               handleFrame (Some (SOI @ body @ EOI)) g, [SOI @ body @ EOI])"
    by (simp add: loop_markers_garbage_frame)
qed

theorem trim_only_without_start_marker_witness:
  "absent_from SOI (replicate 5242881 0) 0 \<and>
   5 * 1024 * 1024 < length (replicate 5242881 (0 :: byte)) \<and>
   loop_markers \<lparr>buffer = replicate 5242881 0, pendingLen = None\<rparr> initial_globals
     = Inr (\<lparr>buffer = replicate 1048576 0, pendingLen = None\<rparr>, initial_globals, []) \<and>
   absent_from SOI [1, 0xD8, 0xFF] 0 \<and> length [1, 0xD8, 0xFF :: byte] \<le> 5 * 1024 * 1024 \<and>
   loop_markers \<lparr>buffer = [1, 0xD8, 0xFF], pendingLen = None\<rparr> initial_globals
     = Inr (\<lparr>buffer = [1, 0xD8, 0xFF], pendingLen = None\<rparr>, initial_globals, []) \<and>
   absent_from SOI [1, 0xFF] 0 \<and> absent_from EOI [2, 0xFF] 0 \<and>
   loop_markers \<lparr>buffer = [1, 0xFF] @ SOI @ [2, 0xFF] @ EOI, pendingLen = None\<rparr> initial_globals
     = Inr (\<lparr>buffer = [], pendingLen = None\<rparr>, initial_globals, [SOI @ [2, 0xFF] @ EOI])"
proof -
  have 1: "absent_from SOI [1, 0xD8, 0xFF] 0"
    by (simp add: absent_from_def occurs_at_def SOI_def upt_rec)
  have 2: "absent_from SOI [1, 0xFF] 0"
    by (simp add: absent_from_def occurs_at_def SOI_def upt_rec)
  have 3: "absent_from EOI [2, 0xFF] 0"
    by (simp add: absent_from_def occurs_at_def EOI_def upt_rec)
  have 4: "handleFrame (Some (SOI @ [2, 0xFF] @ EOI)) initial_globals = initial_globals"
    by (simp add: handleFrame_def)
  show ?thesis
    using trim_only_without_start_marker [of "replicate 5242881 0" None initial_globals "[]" "[]"]
      trim_only_without_start_marker [of "[1, 0xD8, 0xFF]" None initial_globals "[1, 0xFF]"
        "[2, 0xFF]"]
      zeros_absent(1) [of 5242881] 1 2 3 4
    by simp
qed

section \<open>One pass of the broadcast\<close>

lemma write_all_ok:
  "write_all cs s = (s', None) \<Longrightarrow> written s' = written s @ cs \<and> ended s' = ended s"
proof (induction cs arbitrary: s)
  case Nil
  then show ?case by simp
next
  case (Cons c cs)
  from Cons.prems obtain s1 where 1: "res_write c s = Inr s1" and 2: "write_all cs s1 = (s', None)"
    by (auto split: sum.splits)
  from 1 have "written s1 = written s @ [c] \<and> ended s1 = ended s"
    by (auto simp: res_write_def split: option.splits nat.splits)
  with Cons.IH [OF 2] show ?case by simp
qed

lemma ended_try_end: "ended (try_end s)"
  by (simp add: try_end_def res_end_def)

lemma after_tick_ok:
  "write_ok frame s \<Longrightarrow>
   written (after_tick frame s) = written s @ part_chunks frame \<and>
   ended (after_tick frame s) = ended s"
  using write_all_ok [of "part_chunks frame" s "fst (writeFrameTo s frame)"]
  by (auto simp: write_ok_def after_tick_def writeFrameTo_def split: prod.splits option.splits)

lemma after_tick_failed: "\<not> write_ok frame s \<Longrightarrow> ended (after_tick frame s)"
  by (auto simp: write_ok_def after_tick_def ended_try_end split: prod.splits option.splits)

lemma Set_delete_absent: "x \<notin> set xs \<Longrightarrow> Set_delete x xs = xs"
  by (simp add: Set_delete_def)

lemma tick_client_eq:
  "tick_client frame (g, sinks) r =
     ((if write_ok frame (sinks r) then g
       else g\<lparr>mjpegClients := Set_delete r (mjpegClients g)\<rparr>),
      sinks(r := after_tick frame (sinks r)))"
  by (auto simp: tick_client_def write_ok_def after_tick_def split: prod.splits option.splits)

lemma tick_clients_fold:
  "distinct rs \<Longrightarrow>
   foldl (tick_client frame) (g, sinks) rs =
     (g\<lparr>mjpegClients := filter (\<lambda>r. r \<notin> set rs \<or> write_ok frame (sinks r)) (mjpegClients g)\<rparr>,
      \<lambda>r. if r \<in> set rs then after_tick frame (sinks r) else sinks r)"
proof (induction rs arbitrary: g sinks)
  case Nil
  then show ?case by simp
next
  case (Cons r rs)
  define g1 where "g1 = (if write_ok frame (sinks r) then g
       else g\<lparr>mjpegClients := Set_delete r (mjpegClients g)\<rparr>)"
  define sinks1 where "sinks1 = sinks(r := after_tick frame (sinks r))"
  from Cons.prems have r: "r \<notin> set rs" and d: "distinct rs" by simp_all
  have same: "sinks1 x = sinks x" if "x \<in> set rs" for x
    using that r by (auto simp: sinks1_def)
  have reg: "filter (\<lambda>x. x \<notin> set rs \<or> write_ok frame (sinks1 x)) (mjpegClients g1)
             = filter (\<lambda>x. x \<notin> set (r # rs) \<or> write_ok frame (sinks x)) (mjpegClients g)"
  proof (cases "write_ok frame (sinks r)")
    case True
    then have "mjpegClients g1 = mjpegClients g" by (simp add: g1_def)
    moreover have "(x \<notin> set rs \<or> write_ok frame (sinks1 x))
                     = (x \<notin> set (r # rs) \<or> write_ok frame (sinks x))" for x
      using True r same [of x] by auto
    ultimately show ?thesis by simp
  next
    case False
    then have "mjpegClients g1 = filter (\<lambda>x. x \<noteq> r) (mjpegClients g)"
      by (simp add: g1_def Set_delete_def removeAll_filter_not_eq eq_commute)
    moreover have "(x \<noteq> r \<and> (x \<notin> set rs \<or> write_ok frame (sinks1 x)))
                     = (x \<notin> set (r # rs) \<or> write_ok frame (sinks x))" for x
      using False r same [of x] by auto
    ultimately show ?thesis by simp
  qed
  have snk: "(\<lambda>x. if x \<in> set rs then after_tick frame (sinks1 x) else sinks1 x)
             = (\<lambda>x. if x \<in> set (r # rs) then after_tick frame (sinks x) else sinks x)"
    using r same by (auto simp: sinks1_def fun_eq_iff)
  have "foldl (tick_client frame) (g, sinks) (r # rs) = foldl (tick_client frame) (g1, sinks1) rs"
    by (simp add: tick_client_eq g1_def sinks1_def)
  also have "\<dots> = (g1\<lparr>mjpegClients :=
                        filter (\<lambda>x. x \<notin> set rs \<or> write_ok frame (sinks1 x)) (mjpegClients g1)\<rparr>,
                   \<lambda>x. if x \<in> set rs then after_tick frame (sinks1 x) else sinks1 x)"
    using d by (rule Cons.IH)
  also have "\<dots> = (g\<lparr>mjpegClients :=
                        filter (\<lambda>x. x \<notin> set (r # rs) \<or> write_ok frame (sinks x)) (mjpegClients g)\<rparr>,
                   \<lambda>x. if x \<in> set (r # rs) then after_tick frame (sinks x) else sinks x)"
    unfolding reg snk by (simp add: g1_def)
  finally show ?case .
qed

lemma tick_eq:
  assumes "latestFrame g = Some frame" "distinct (mjpegClients g)"
  shows "tick g sinks =
     (g\<lparr>mjpegClients := filter (\<lambda>r. write_ok frame (sinks r)) (mjpegClients g)\<rparr>,
      \<lambda>r. if r \<in> set (mjpegClients g) then after_tick frame (sinks r) else sinks r)"
proof (cases "mjpegClients g = []")
  case True
  with assms show ?thesis by (simp add: tick_def)
next
  case False
  have "filter (\<lambda>r. r \<notin> set (mjpegClients g) \<or> write_ok frame (sinks r)) (mjpegClients g)
          = filter (\<lambda>r. write_ok frame (sinks r)) (mjpegClients g)"
    by (rule filter_cong) auto
  with False assms tick_clients_fold [OF assms(2), of frame g sinks] show ?thesis
    by (simp add: tick_def)
qed

text \<open>
  Claim C7.  In one pass of the broadcast with a frame cached, every registered client is
  dealt with on its own.  A client for which a write throws is removed from
  \<open>mjpegClients\<close> and its response is ended; a client for which no write throws stays
  registered and has the five chunks of the frame's part appended to what was written to
  it, whatever happens to the other clients.  The registry is a set, so its list has no
  duplicates.  Response objects that are not registered are not touched, and deleting a
  client that is not in the registry, as the \<open>close\<close> handler may do after the
  broadcast has removed it, leaves the registry as it is and raises nothing.
\<close>

theorem tick_isolates_failures:
  assumes "latestFrame g = Some frame" and "distinct (mjpegClients g)"
    and "tick g sinks = (g', sinks')"
  shows "(\<forall>r \<in> set (mjpegClients g).
            (snd (writeFrameTo (sinks r) frame) \<noteq> None \<longrightarrow>
               r \<notin> set (mjpegClients g') \<and> ended (sinks' r)) \<and>
            (snd (writeFrameTo (sinks r) frame) = None \<longrightarrow>
               r \<in> set (mjpegClients g') \<and>
               written (sinks' r) = written (sinks r) @ part_chunks frame)) \<and>
         (\<forall>r. r \<notin> set (mjpegClients g) \<longrightarrow>
            sinks' r = sinks r \<and>
            Set_delete r (mjpegClients g) = mjpegClients g \<and>
            fst (on_close r (g, sinks)) = g)"
proof -
  from tick_eq [OF assms(1,2), of sinks] assms(3)
  have g': "g' = g\<lparr>mjpegClients := filter (\<lambda>r. write_ok frame (sinks r)) (mjpegClients g)\<rparr>"
    and s': "sinks' = (\<lambda>r. if r \<in> set (mjpegClients g) then after_tick frame (sinks r) else sinks r)"
    by simp_all
  show ?thesis
    using after_tick_ok [of frame] after_tick_failed [of frame]
    by (auto simp: g' s' write_ok_def Set_delete_absent on_close_def)
qed


theorem tick_isolates_failures_witness:
  "(let g0 = initial_globals\<lparr>latestFrame := Some [0xFF], mjpegClients := [1, 2, 3]\<rparr>;
        sinks0 = (\<lambda>r. \<lparr>written = [], ended = False,
                          writes_left = (if r = 2 then Some 2 else None)\<rparr>)
    in latestFrame g0 = Some [0xFF] \<and> distinct (mjpegClients g0) \<and>
       snd (writeFrameTo (sinks0 2) [0xFF]) \<noteq> None \<and>
       2 \<notin> set (mjpegClients (fst (tick g0 sinks0))) \<and> ended (snd (tick g0 sinks0) 2) \<and>
       snd (writeFrameTo (sinks0 1) [0xFF]) = None \<and>
       1 \<in> set (mjpegClients (fst (tick g0 sinks0))) \<and>
       written (snd (tick g0 sinks0) 1) = part_chunks [0xFF] \<and>
       snd (writeFrameTo (sinks0 3) [0xFF]) = None \<and>
       3 \<in> set (mjpegClients (fst (tick g0 sinks0))) \<and>
       written (snd (tick g0 sinks0) 3) = part_chunks [0xFF] \<and>
       4 \<notin> set (mjpegClients g0) \<and> snd (tick g0 sinks0) 4 = sinks0 4 \<and>
       Set_delete 4 (mjpegClients g0) = mjpegClients g0 \<and>
       fst (on_close 4 (g0, sinks0)) = g0)"
proof -
  define g0 where "g0 = initial_globals\<lparr>latestFrame := Some [0xFF], mjpegClients := [1, 2, 3]\<rparr>"
  define sinks0 where "sinks0 = (\<lambda>r :: res. \<lparr>written = [], ended = False,
                          writes_left = (if r = 2 then Some (2 :: nat) else None)\<rparr>)"
  have 1: "latestFrame g0 = Some [0xFF]" and 2: "distinct (mjpegClients g0)"
    and 3: "set (mjpegClients g0) = {1, 2, 3}"
    by (simp_all add: g0_def)
  have 4: "snd (writeFrameTo (sinks0 2) [0xFF]) \<noteq> None"
    by (simp add: sinks0_def writeFrameTo_def part_chunks_def res_write_def)
  have 5: "snd (writeFrameTo (sinks0 1) [0xFF]) = None" "snd (writeFrameTo (sinks0 3) [0xFF]) = None"
    by (simp_all add: sinks0_def writeFrameTo_def part_chunks_def res_write_def)
  have 6: "written (sinks0 r) = []" for r
    by (simp add: sinks0_def)
  have 7: "tick g0 sinks0 = (fst (tick g0 sinks0), snd (tick g0 sinks0))"
    by simp
  from tick_isolates_failures [OF 1 2 7] 3 4 5 6
  have "2 \<notin> set (mjpegClients (fst (tick g0 sinks0))) \<and> ended (snd (tick g0 sinks0) 2) \<and>
       1 \<in> set (mjpegClients (fst (tick g0 sinks0))) \<and>
       written (snd (tick g0 sinks0) 1) = part_chunks [0xFF] \<and>
       3 \<in> set (mjpegClients (fst (tick g0 sinks0))) \<and>
       written (snd (tick g0 sinks0) 3) = part_chunks [0xFF] \<and>
       4 \<notin> set (mjpegClients g0) \<and> snd (tick g0 sinks0) 4 = sinks0 4 \<and>
       Set_delete 4 (mjpegClients g0) = mjpegClients g0 \<and>
       fst (on_close 4 (g0, sinks0)) = g0"
    by simp
  with 1 2 4 5 show ?thesis
    unfolding Let_def g0_def [symmetric] sinks0_def [symmetric] by simp
qed

section \<open>The period of the broadcast\<close>






end
